theory Spec2Isabelle
  imports Main
begin

section \<open>Text primitives of the Python runtime\<close>

text \<open>
  A Python \<open>str\<close> is modelled as a \<open>string\<close> whose characters stand for the code points
  0 to 255. In that range the decimal digits (\<open>\d\<close>, \<open>int()\<close>) are the ten ASCII digits, and
  the whitespace of \<open>str.strip()\<close>, \<open>int()\<close> and \<open>\s\<close> is the set below.
\<close>

definition dq :: char where
  "dq = CHR 0x22"

definition sq :: char where
  "sq = CHR 0x27"

definition nl :: char where
  "nl = CHR 0x0A"

definition is_digit :: "char \<Rightarrow> bool" where
  "is_digit c = (c \<in> set ''0123456789'')"

definition is_space :: "char \<Rightarrow> bool" where
  "is_space c = (c \<in> set [CHR 0x09, CHR 0x0A, CHR 0x0B, CHR 0x0C, CHR 0x0D,
                           CHR 0x1C, CHR 0x1D, CHR 0x1E, CHR 0x1F, CHR 0x20,
                           CHR 0x85, CHR 0xA0])"

definition not_dq :: "char \<Rightarrow> bool" where
  "not_dq c = (c \<noteq> dq)"

text \<open>\<open>s.strip()\<close>: leading and trailing whitespace removed.\<close>

definition strip :: "string \<Rightarrow> string" where
  "strip s = rev (dropWhile is_space (rev (dropWhile is_space s)))"

text \<open>\<open>s.split(sep)\<close> for a one-character separator; the result is never empty.\<close>

fun split_on :: "char \<Rightarrow> string \<Rightarrow> string list" where
  "split_on sep [] = [[]]"
| "split_on sep (c # cs) =
     (if c = sep then [] # split_on sep cs
      else (c # hd (split_on sep cs)) # tl (split_on sep cs))"

text \<open>
  A decimal digit and its value: the value is the position of the digit in
  \<open>0123456789\<close>, and the digit of a value below ten is the character at that position.
\<close>

definition digit_val :: "char \<Rightarrow> nat" where
  "digit_val c = length (takeWhile (\<lambda>d. d \<noteq> c) ''0123456789'')"

definition digit_char :: "nat \<Rightarrow> char" where
  "digit_char d = ''0123456789'' ! (d mod 10)"

definition nat_of_digits :: "string \<Rightarrow> nat" where
  "nat_of_digits ds = foldl (\<lambda>acc c. 10 * acc + digit_val c) 0 ds"

text \<open>
  The body of a base-10 integer literal as \<open>int()\<close> accepts it: digits, with single
  underscores between digits. The flag says whether the previous character was a digit.
\<close>

fun digits_us :: "bool \<Rightarrow> string \<Rightarrow> bool" where
  "digits_us d [] = d"
| "digits_us d (c # cs) =
     (if is_digit c then digits_us True cs
      else if c = CHR ''_'' \<and> d then digits_us False cs
      else False)"

text \<open>
  \<open>int(s)\<close> on a \<open>str\<close>: whitespace around the literal is dropped (the separators
  0x1C to 0x1F are not whitespace here), then comes an optional sign; \<open>None\<close> stands for
  the \<open>ValueError\<close> it raises.
\<close>

definition is_int_space :: "char \<Rightarrow> bool" where
  "is_int_space c = (c \<in> set [CHR 0x09, CHR 0x0A, CHR 0x0B, CHR 0x0C, CHR 0x0D, CHR 0x20,
                               CHR 0x85, CHR 0xA0])"

definition py_int :: "string \<Rightarrow> int option" where
  "py_int s =
     (let t = rev (dropWhile is_int_space (rev (dropWhile is_int_space s)));
          neg = (t \<noteq> [] \<and> hd t = CHR ''-'');
          u = (if t \<noteq> [] \<and> (hd t = CHR ''-'' \<or> hd t = CHR ''+'') then tl t else t)
      in if digits_us False u
         then Some ((if neg then - 1 else 1) * int (nat_of_digits (filter is_digit u)))
         else None)"

function str_nat :: "nat \<Rightarrow> string" where
  "str_nat n = (if n < 10 then [digit_char n] else str_nat (n div 10) @ [digit_char (n mod 10)])"
  by pat_completeness auto
termination
  by (relation "measure (\<lambda>n. n)") auto

declare str_nat.simps [simp del]

text \<open>\<open>str(i)\<close>, which is also how an f-string renders an \<open>int\<close>.\<close>

definition py_str :: "int \<Rightarrow> string" where
  "py_str i = (if i < 0 then CHR ''-'' # str_nat (nat (- i)) else str_nat (nat i))"

section \<open>The regular expressions of the \<open>re\<close> module that the script uses\<close>

text \<open>
  The patterns of the script are sequences of anchors, literal characters and greedy
  repetitions of a character class. \<open>match_items\<close> is the backtracking matcher on such a
  sequence at one position: it returns the text after the match, and the character before
  that text. The flag is \<open>re.MULTILINE\<close>; the character before the position decides \<open>^\<close>.
\<close>

datatype item =
    Caret
  | Dollar
  | Chr char
  | Star "char \<Rightarrow> bool"
  | Plus "char \<Rightarrow> bool"

fun match_items :: "bool \<Rightarrow> item list \<Rightarrow> char option \<Rightarrow> string \<Rightarrow> (char option \<times> string) option" where
  "match_items ml [] prev s = Some (prev, s)"
| "match_items ml (Caret # its) prev s =
     (if prev = None \<or> (ml \<and> prev = Some nl) then match_items ml its prev s else None)"
| "match_items ml (Dollar # its) prev s =
     (if (case s of [] \<Rightarrow> True | c # cs \<Rightarrow> c = nl \<and> (ml \<or> cs = []))
      then match_items ml its prev s else None)"
| "match_items ml (Chr c # its) prev [] = None"
| "match_items ml (Chr c # its) prev (x # xs) =
     (if x = c then match_items ml its (Some x) xs else None)"
| "match_items ml (Star P # its) prev [] = match_items ml its prev []"
| "match_items ml (Star P # its) prev (x # xs) =
     (if P x
      then (case match_items ml (Star P # its) (Some x) xs of
              Some r \<Rightarrow> Some r
            | None \<Rightarrow> match_items ml its prev (x # xs))
      else match_items ml its prev (x # xs))"
| "match_items ml (Plus P # its) prev [] = None"
| "match_items ml (Plus P # its) prev (x # xs) =
     (if P x then match_items ml (Star P # its) (Some x) xs else None)"

text \<open>\<open>re.match(pattern, s)\<close>, used for its truth value: a match at the start of \<open>s\<close>.\<close>

definition re_match :: "bool \<Rightarrow> item list \<Rightarrow> string \<Rightarrow> bool" where
  "re_match ml its s = (match_items ml its None s \<noteq> None)"

text \<open>\<open>re.search(pattern, s, flags)\<close>, used for its truth value: the positions are tried from left to right.\<close>

fun search_from :: "bool \<Rightarrow> item list \<Rightarrow> char option \<Rightarrow> string \<Rightarrow> bool" where
  "search_from ml its prev [] = (match_items ml its prev [] \<noteq> None)"
| "search_from ml its prev (x # xs) =
     (match_items ml its prev (x # xs) \<noteq> None \<or> search_from ml its (Some x) xs)"

definition re_search :: "bool \<Rightarrow> item list \<Rightarrow> string \<Rightarrow> bool" where
  "re_search ml its s = search_from ml its None s"

text \<open>
  \<open>re.sub(pattern, repl, s, flags)\<close>: every match, leftmost first and without overlap, is
  replaced. After a match the scan goes on behind it; an empty match is replaced and the
  scan moves one character on. The replacement is inserted as it is: the script's
  templates hold a version, which has digits and dots only, so no backslash of the
  template language occurs in them.
\<close>

function sub_from :: "bool \<Rightarrow> item list \<Rightarrow> string \<Rightarrow> char option \<Rightarrow> string \<Rightarrow> string" where
  "sub_from ml its repl prev [] =
     (case match_items ml its prev [] of None \<Rightarrow> [] | Some r \<Rightarrow> repl)"
| "sub_from ml its repl prev (x # xs) =
     (case match_items ml its prev (x # xs) of
        None \<Rightarrow> x # sub_from ml its repl (Some x) xs
      | Some (prev', r) \<Rightarrow>
          (if length r < Suc (length xs) then repl @ sub_from ml its repl prev' r
           else repl @ x # sub_from ml its repl (Some x) xs))"
  by pat_completeness auto
termination
  by (relation "measure (\<lambda>(ml, its, repl, prev, s). length s)") auto

definition re_sub :: "bool \<Rightarrow> item list \<Rightarrow> string \<Rightarrow> string \<Rightarrow> string" where
  "re_sub ml its repl s = sub_from ml its repl None s"

text \<open>\<open>r'^\d+\.\d+\.\d+$'\<close>\<close>

definition version_pattern :: "item list" where
  "version_pattern =
     [Caret, Plus is_digit, Chr CHR ''.'', Plus is_digit, Chr CHR ''.'', Plus is_digit, Dollar]"

text \<open>\<open>r'^version\s*=\s*"[^"]*"'\<close>\<close>

definition backend_pattern :: "item list" where
  "backend_pattern =
     Caret # map Chr ''version'' @
     [Star is_space, Chr CHR ''='', Star is_space, Chr dq, Star not_dq, Chr dq]"

text \<open>\<open>r'"version":\s*"[^"]*"'\<close>\<close>

definition frontend_pattern :: "item list" where
  "frontend_pattern =
     Chr dq # map Chr ''version'' @
     [Chr dq, Chr CHR '':'', Star is_space, Chr dq, Star not_dq, Chr dq]"

text \<open>\<open>r"return '1\.0\.0'"\<close>\<close>

definition ts_pattern :: "item list" where
  "ts_pattern = map Chr ''return '' @ Chr sq # map Chr ''1.0.0'' @ [Chr sq]"

section \<open>Files, exceptions and console output\<close>

text \<open>
  A \<open>pathlib.Path\<close> is the list of its components; \<open>Path(".")\<close> is the empty list and
  \<open>p / "a" / "b"\<close> appends components.
\<close>

type_synonym path = "string list"

datatype value_error =
    InvalidVersionFormat string
  | InvalidBumpType string
  | InvalidLiteral string
  | NotEnoughValues nat
  | TooManyValues

datatype exn =
    FileNotFoundError path
  | ValueError value_error
  | OSError path

text \<open>One constructor for each \<open>print\<close> call of the script, with the values it interpolates.\<close>

datatype msg =
    BackendNotFound path
  | BackendUpdated string
  | BackendNoVersionLine path
  | BackendError exn
  | FrontendNotFound path
  | FrontendUpdated string
  | FrontendNoVersionLine path
  | FrontendError exn
  | TsNotFound path
  | TsUpdated path
  | TsNoVersionString path
  | TsError path exn
  | HeaderCreated path
  | HeaderError exn
  | VersionBumped string
  | UsageLine nat
  | UpdateResults
  | UpdateResult string bool
  | SpecifyBumpType
  | InvalidBumpTypeUse
  | BumpedTo string
  | UpdatingAll
  | VersionInformation
  | InfoLine string string
  | UnknownCommand string
  | UseCommands
  | ErrorReport exn
  | Traceback exn

text \<open>
  The world outside the process: \<open>files\<close> maps each existing path to its text, as a
  text-mode read returns it. \<open>open(p, 'r')\<close> raises an \<open>OSError\<close> for the paths in
  \<open>unreadable\<close> and \<open>open(p, 'w')\<close> for those in \<open>unwritable\<close> (no permission, a
  directory in the way, a missing parent directory); \<open>out\<close> is what has been printed.
\<close>

record world =
  files :: "path \<rightharpoonup> string"
  unreadable :: "path set"
  unwritable :: "path set"
  out :: "msg list"

definition say :: "msg \<Rightarrow> world \<Rightarrow> world" where
  "say m w = w\<lparr>out := out w @ [m]\<rparr>"

definition path_exists :: "path \<Rightarrow> world \<Rightarrow> bool" where
  "path_exists p w = (p \<in> dom (files w))"

text \<open>\<open>with open(p, 'r', encoding='utf-8') as f: f.read()\<close>\<close>

definition open_read :: "path \<Rightarrow> world \<Rightarrow> exn + string" where
  "open_read p w =
     (if p \<in> unreadable w then Inl (OSError p)
      else case files w p of None \<Rightarrow> Inl (FileNotFoundError p) | Some c \<Rightarrow> Inr c)"

text \<open>\<open>with open(p, 'w', encoding='utf-8') as f: f.write(c)\<close>\<close>

definition open_write :: "path \<Rightarrow> string \<Rightarrow> world \<Rightarrow> (exn + unit) \<times> world" where
  "open_write p c w =
     (if p \<in> unwritable w then (Inl (OSError p), w)
      else (Inr (), w\<lparr>files := (files w)(p \<mapsto> c)\<rparr>))"

text \<open>\<open>try: body except Exception as e: handler\<close>\<close>

definition try_except ::
  "(world \<Rightarrow> (exn + 'a) \<times> world) \<Rightarrow> (exn \<Rightarrow> world \<Rightarrow> (exn + 'a) \<times> world) \<Rightarrow>
   world \<Rightarrow> (exn + 'a) \<times> world" where
  "try_except body handler w =
     (case body w of (Inl e, w') \<Rightarrow> handler e w' | (Inr v, w') \<Rightarrow> (Inr v, w'))"

text \<open>One statement after another: an exception of the first skips the second.\<close>

definition and_then ::
  "(world \<Rightarrow> (exn + 'a) \<times> world) \<Rightarrow> ('a \<Rightarrow> world \<Rightarrow> (exn + 'b) \<times> world) \<Rightarrow>
   world \<Rightarrow> (exn + 'b) \<times> world" where
  "and_then f g w = (case f w of (Inl e, w') \<Rightarrow> (Inl e, w') | (Inr v, w') \<Rightarrow> g v w')"

section \<open>The class \<open>VersionManager\<close>\<close>

record manager =
  project_root :: path
  version_file :: path
  version :: string

text \<open>\<open>VersionManager._read_version\<close>\<close>

definition read_version :: "path \<Rightarrow> world \<Rightarrow> (exn + string) \<times> world" where
  "read_version vfile w =
     (if \<not> path_exists vfile w then (Inl (FileNotFoundError vfile), w)
      else case open_read vfile w of
             Inl e \<Rightarrow> (Inl e, w)
           | Inr content \<Rightarrow>
               (let version = strip content
                in if \<not> re_match False version_pattern version
                   then (Inl (ValueError (InvalidVersionFormat version)), w)
                   else (Inr version, w)))"

text \<open>\<open>VersionManager.__init__\<close>\<close>

definition init :: "path \<Rightarrow> world \<Rightarrow> (exn + manager) \<times> world" where
  "init root =
     and_then (read_version (root @ [''VERSION'']))
       (\<lambda>v w. (Inr \<lparr>project_root = root, version_file = root @ [''VERSION''], version = v\<rparr>, w))"

text \<open>\<open>VersionManager.update_backend_version\<close>: the body of its \<open>try\<close>, then the method.\<close>

definition backend_try :: "manager \<Rightarrow> path \<Rightarrow> world \<Rightarrow> (exn + bool) \<times> world" where
  "backend_try m cargo_file w =
     (case open_read cargo_file w of
        Inl e \<Rightarrow> (Inl e, w)
      | Inr content \<Rightarrow>
          (let new_line = ''version = '' @ [dq] @ version m @ [dq]
           in if re_search True backend_pattern content
              then and_then (open_write cargo_file (re_sub True backend_pattern new_line content))
                     (\<lambda>_ w'. (Inr True, say (BackendUpdated (version m)) w')) w
              else (Inr False, say (BackendNoVersionLine cargo_file) w)))"

definition update_backend_version :: "manager \<Rightarrow> world \<Rightarrow> (exn + bool) \<times> world" where
  "update_backend_version m w =
     (let cargo_file = project_root m @ [''backend'', ''Cargo.toml'']
      in if \<not> path_exists cargo_file w
         then (Inr False, say (BackendNotFound cargo_file) w)
         else try_except (backend_try m cargo_file)
                (\<lambda>e w'. (Inr False, say (BackendError e) w')) w)"

text \<open>\<open>VersionManager.update_frontend_version\<close>\<close>

definition frontend_try :: "manager \<Rightarrow> path \<Rightarrow> world \<Rightarrow> (exn + bool) \<times> world" where
  "frontend_try m package_file w =
     (case open_read package_file w of
        Inl e \<Rightarrow> (Inl e, w)
      | Inr content \<Rightarrow>
          (let new_line = [dq] @ ''version'' @ [dq] @ '': '' @ [dq] @ version m @ [dq]
           in if re_search False frontend_pattern content
              then and_then (open_write package_file (re_sub False frontend_pattern new_line content))
                     (\<lambda>_ w'. (Inr True, say (FrontendUpdated (version m)) w')) w
              else (Inr False, say (FrontendNoVersionLine package_file) w)))"

definition update_frontend_version :: "manager \<Rightarrow> world \<Rightarrow> (exn + bool) \<times> world" where
  "update_frontend_version m w =
     (let package_file = project_root m @ [''frontend'', ''package.json'']
      in if \<not> path_exists package_file w
         then (Inr False, say (FrontendNotFound package_file) w)
         else try_except (frontend_try m package_file)
                (\<lambda>e w'. (Inr False, say (FrontendError e) w')) w)"

text \<open>
  \<open>VersionManager.update_typescript_version\<close>: the body of the \<open>try\<close> for one file, one
  pass of the loop (its result is the value of \<open>updated\<close> after the pass), the loop over
  \<open>ts_files\<close>, and the method.
\<close>

definition ts_files :: "path list" where
  "ts_files = [[''frontend'', ''src'', ''services'', ''AutoUpdater.ts''],
               [''frontend'', ''src'', ''services'', ''BackendService.ts'']]"

definition ts_try :: "manager \<Rightarrow> path \<Rightarrow> bool \<Rightarrow> world \<Rightarrow> (exn + bool) \<times> world" where
  "ts_try m ts_file updated w =
     (let file_path = project_root m @ ts_file
      in case open_read file_path w of
           Inl e \<Rightarrow> (Inl e, w)
         | Inr content \<Rightarrow>
             (let new_line = ''return '' @ [sq] @ version m @ [sq]
              in if re_search False ts_pattern content
                 then and_then (open_write file_path (re_sub False ts_pattern new_line content))
                        (\<lambda>_ w'. (Inr True, say (TsUpdated ts_file) w')) w
                 else (Inr updated, say (TsNoVersionString ts_file) w)))"

definition ts_pass :: "manager \<Rightarrow> path \<Rightarrow> bool \<Rightarrow> world \<Rightarrow> (exn + bool) \<times> world" where
  "ts_pass m ts_file updated w =
     (if \<not> path_exists (project_root m @ ts_file) w
      then (Inr updated, say (TsNotFound ts_file) w)
      else try_except (ts_try m ts_file updated)
             (\<lambda>e w'. (Inr updated, say (TsError ts_file e) w')) w)"

fun ts_loop :: "manager \<Rightarrow> path list \<Rightarrow> bool \<Rightarrow> world \<Rightarrow> (exn + bool) \<times> world" where
  "ts_loop m [] updated w = (Inr updated, w)"
| "ts_loop m (ts_file # rest) updated w =
     and_then (ts_pass m ts_file updated) (\<lambda>updated' w'. ts_loop m rest updated' w') w"

definition update_typescript_version :: "manager \<Rightarrow> world \<Rightarrow> (exn + bool) \<times> world" where
  "update_typescript_version m w = ts_loop m ts_files False w"

text \<open>\<open>VersionManager.create_version_header\<close>: the text of the f-string, then the method.\<close>

definition header_content :: "string \<Rightarrow> string" where
  "header_content v = concat (map (\<lambda>l. l @ [nl])
     [''// Auto-generated version file - DO NOT EDIT MANUALLY'',
      ''// This file is updated automatically by the version manager'',
      [],
      ''export const APP_VERSION = '' @ [sq] @ v @ [sq] @ '';'',
      ''export const APP_NAME = '' @ [sq] @ ''Unified Data Studio v2'' @ [sq] @ '';'',
      [],
      ''// Version information for components'',
      ''export const VERSION_INFO = {'',
      ''  version: '' @ [sq] @ v @ [sq] @ '','',
      ''  name: '' @ [sq] @ ''Unified Data Studio v2'' @ [sq] @ '','',
      ''  buildDate: new Date().toISOString(),'',
      ''  environment: process.env.NODE_ENV || '' @ [sq] @ ''development'' @ [sq],
      ''};'',
      [],
      ''export default APP_VERSION;''])"

definition create_version_header :: "manager \<Rightarrow> world \<Rightarrow> (exn + bool) \<times> world" where
  "create_version_header m w =
     (let header_file = project_root m @ [''frontend'', ''src'', ''version.ts'']
      in try_except
           (and_then (open_write header_file (header_content (version m)))
              (\<lambda>_ w'. (Inr True, say (HeaderCreated header_file) w')))
           (\<lambda>e w'. (Inr False, say (HeaderError e) w')) w)"

text \<open>
  \<open>VersionManager.update_all_components\<close>: the dictionary, in the order of its entries,
  which is the order in which Python evaluates them.
\<close>

definition update_all_components :: "manager \<Rightarrow> world \<Rightarrow> (exn + (string \<times> bool) list) \<times> world" where
  "update_all_components m =
     and_then (update_backend_version m) (\<lambda>backend.
     and_then (update_frontend_version m) (\<lambda>frontend_package.
     and_then (update_typescript_version m) (\<lambda>typescript.
     and_then (create_version_header m) (\<lambda>version_header w.
       (Inr [(''backend'', backend), (''frontend_package'', frontend_package),
             (''typescript'', typescript), (''version_header'', version_header)], w)))))"

text \<open>
  \<open>major, minor, patch = map(int, parts)\<close>: the parts are converted one by one while the
  three names are filled; a fourth part is converted before it is found to be one too many.
\<close>

fun unpack3 :: "string list \<Rightarrow> int list \<Rightarrow> value_error + int \<times> int \<times> int" where
  "unpack3 [] acc =
     (case acc of [a, b, c] \<Rightarrow> Inr (a, b, c) | _ \<Rightarrow> Inl (NotEnoughValues (length acc)))"
| "unpack3 (p # ps) acc =
     (case py_int p of
        None \<Rightarrow> Inl (InvalidLiteral p)
      | Some i \<Rightarrow> if length acc = 3 then Inl TooManyValues else unpack3 ps (acc @ [i]))"

text \<open>
  \<open>VersionManager.bump_version\<close>: the manager is returned with the result, changed only
  by the assignment to \<open>self.version\<close>.
\<close>

definition bump_version :: "string \<Rightarrow> manager \<Rightarrow> world \<Rightarrow> (exn + string) \<times> manager \<times> world" where
  "bump_version bump_type m w =
     (case unpack3 (split_on CHR ''.'' (version m)) [] of
        Inl ve \<Rightarrow> (Inl (ValueError ve), m, w)
      | Inr (major, minor, patch) \<Rightarrow>
          (case (if bump_type = ''major'' then Some (major + 1, 0, 0)
                 else if bump_type = ''minor'' then Some (major, minor + 1, 0)
                 else if bump_type = ''patch'' then Some (major, minor, patch + 1)
                 else None) of
             None \<Rightarrow> (Inl (ValueError (InvalidBumpType bump_type)), m, w)
           | Some (major', minor', patch') \<Rightarrow>
               (let new_version = py_str major' @ ''.'' @ py_str minor' @ ''.'' @ py_str patch'
                in case open_write (version_file m) new_version w of
                     (Inl e, w') \<Rightarrow> (Inl e, m, w')
                   | (Inr _, w') \<Rightarrow>
                       (Inr new_version, m\<lparr>version := new_version\<rparr>,
                        say (VersionBumped new_version) w'))))"

text \<open>\<open>str(p)\<close> of a relative path, and \<open>VersionManager.get_version_info\<close>.\<close>

fun path_str :: "path \<Rightarrow> string" where
  "path_str [] = ''.''"
| "path_str [c] = c"
| "path_str (c # cs) = c @ ''/'' @ path_str cs"

definition get_version_info :: "manager \<Rightarrow> (string \<times> string) list" where
  "get_version_info m =
     [(''current_version'', version m),
      (''version_file'', path_str (version_file m)),
      (''project_root'', path_str (project_root m))]"

section \<open>The command line\<close>

definition say_all :: "msg list \<Rightarrow> world \<Rightarrow> world" where
  "say_all ms w = foldl (\<lambda>w' m. say m w') w ms"

text \<open>The \<open>try\<close> block of \<open>main\<close>; a \<open>return\<close> inside it ends \<open>main\<close> normally.\<close>

definition main_try :: "string list \<Rightarrow> string \<Rightarrow> manager \<Rightarrow> world \<Rightarrow> (exn + unit) \<times> world" where
  "main_try argv command manager w =
     (if command = ''update-all''
      then and_then (update_all_components manager)
             (\<lambda>results w'.
                (Inr (), say_all (UpdateResults # map (\<lambda>(component, success). UpdateResult component success) results) w')) w
      else if command = ''bump''
      then (if length argv < 3 then (Inr (), say SpecifyBumpType w)
            else (let bump_type = argv ! 2
                  in if bump_type \<notin> set [''major'', ''minor'', ''patch'']
                     then (Inr (), say InvalidBumpTypeUse w)
                     else (case bump_version bump_type manager w of
                             (Inl e, manager', w') \<Rightarrow> (Inl e, w')
                           | (Inr new_version, manager', w') \<Rightarrow>
                               and_then (update_all_components manager') (\<lambda>_ w''. (Inr (), w''))
                                 (say UpdatingAll (say (BumpedTo new_version) w')))))
      else if command = ''info''
      then (Inr (), say_all (VersionInformation # map (\<lambda>(key, val). InfoLine key val) (get_version_info manager)) w)
      else if command = ''create-header''
      then and_then (create_version_header manager) (\<lambda>_ w'. (Inr (), w')) w
      else (Inr (), say UseCommands (say (UnknownCommand command) w)))"

text \<open>
  \<open>main\<close>, with the exit status of the process: 0 when \<open>main\<close> returns, 1 after
  \<open>sys.exit(1)\<close> and 1 when the exception of the constructor, which is outside the
  \<open>try\<close>, ends the interpreter with a traceback.
\<close>

definition main :: "string list \<Rightarrow> world \<Rightarrow> nat \<times> world" where
  "main argv w =
     (if length argv < 2 then (0, say_all (map UsageLine [0, 1, 2, 3, 4, 5]) w)
      else (let command = argv ! 1
            in case init [] w of
                 (Inl e, w1) \<Rightarrow> (1, say (Traceback e) w1)
               | (Inr manager, w1) \<Rightarrow>
                   (case main_try argv command manager w1 of
                      (Inl e, w2) \<Rightarrow> (1, say (ErrorReport e) w2)
                    | (Inr _, w2) \<Rightarrow> (0, w2))))"

section \<open>The data model of the specification\<close>

text \<open>
  A version is a triple of natural numbers, written \<open><major>.<minor>.<patch>\<close> in decimal.
  \<open>parse_version\<close> reads such a text (each number a non-empty run of digits) and
  \<open>render_version\<close> writes the triple.
\<close>

definition all_digits :: "string \<Rightarrow> bool" where
  "all_digits d = (d \<noteq> [] \<and> list_all is_digit d)"

definition parse_version :: "string \<Rightarrow> (nat \<times> nat \<times> nat) option" where
  "parse_version v =
     (case split_on CHR ''.'' v of
        [a, b, c] \<Rightarrow>
          if all_digits a \<and> all_digits b \<and> all_digits c
          then Some (nat_of_digits a, nat_of_digits b, nat_of_digits c) else None
      | _ \<Rightarrow> None)"

fun render_version :: "nat \<times> nat \<times> nat \<Rightarrow> string" where
  "render_version (a, b, c) = str_nat a @ ''.'' @ str_nat b @ ''.'' @ str_nat c"

text \<open>
  The steps of \<open>propagate_all\<close>, and the step that each printed line reports on: one line
  is printed for the backend manifest, one for the frontend manifest, one for each
  TypeScript file and one for the declarations file.
\<close>

datatype step = BackendStep | FrontendStep | TsStep path | HeaderStep | NoStep

fun step_of :: "msg \<Rightarrow> step" where
  "step_of (BackendNotFound p) = BackendStep"
| "step_of (BackendUpdated v) = BackendStep"
| "step_of (BackendNoVersionLine p) = BackendStep"
| "step_of (BackendError e) = BackendStep"
| "step_of (FrontendNotFound p) = FrontendStep"
| "step_of (FrontendUpdated v) = FrontendStep"
| "step_of (FrontendNoVersionLine p) = FrontendStep"
| "step_of (FrontendError e) = FrontendStep"
| "step_of (TsNotFound f) = TsStep f"
| "step_of (TsUpdated f) = TsStep f"
| "step_of (TsNoVersionString f) = TsStep f"
| "step_of (TsError f e) = TsStep f"
| "step_of (HeaderCreated p) = HeaderStep"
| "step_of (HeaderError e) = HeaderStep"
| "step_of _ = NoStep"

section \<open>Notions for the proofs about substitution\<close>

text \<open>
  A tail of a pattern keeps its matches under a substitution: where it matches the
  substituted text, it matches the original text.
\<close>

definition keeps_match :: "bool \<Rightarrow> item list \<Rightarrow> string \<Rightarrow> item list \<Rightarrow> bool" where
  "keeps_match ml pat repl its =
     (\<forall>p t p1 p2. match_items ml its p1 (sub_from ml pat repl p t) \<noteq> None \<longrightarrow>
                   match_items ml its p2 t \<noteq> None)"

text \<open>Every match of the pattern starts with the character \<open>c0\<close>.\<close>

definition headed :: "bool \<Rightarrow> item list \<Rightarrow> char \<Rightarrow> bool" where
  "headed ml pat c0 = (\<forall>p s. match_items ml pat p s \<noteq> None \<longrightarrow> (\<exists>t. s = c0 # t))"

text \<open>The replacement lines of the three targets, for a version \<open>v\<close>.\<close>

definition backend_line :: "string \<Rightarrow> string" where
  "backend_line v = ''version = '' @ [dq] @ v @ [dq]"

definition frontend_line :: "string \<Rightarrow> string" where
  "frontend_line v = [dq] @ ''version'' @ [dq] @ '': '' @ [dq] @ v @ [dq]"

definition ts_line :: "string \<Rightarrow> string" where
  "ts_line v = ''return '' @ [sq] @ v @ [sq]"

text \<open>
  What a propagation step does to the file map: the file at \<open>p\<close>, if it exists, can be
  read, has a match and can be written, gets the substituted text.
\<close>

definition rewrite_at ::
  "bool \<Rightarrow> item list \<Rightarrow> string \<Rightarrow> path set \<Rightarrow> path set \<Rightarrow> path \<Rightarrow> (path \<rightharpoonup> string) \<Rightarrow> (path \<rightharpoonup> string)" where
  "rewrite_at ml pat repl ur uw p fs =
     (case fs p of
        None \<Rightarrow> fs
      | Some c \<Rightarrow> if p \<notin> ur \<and> re_search ml pat c \<and> p \<notin> uw
                  then fs(p \<mapsto> re_sub ml pat repl c) else fs)"

section \<open>Digits and integer literals\<close>

lemma is_digit_simps [simp]:
  "is_digit c \<Longrightarrow> \<not> is_space c" "is_digit c \<Longrightarrow> \<not> is_int_space c"
  "is_digit c \<Longrightarrow> c \<noteq> CHR ''.''" "is_digit c \<Longrightarrow> c \<noteq> CHR ''-''" "is_digit c \<Longrightarrow> c \<noteq> CHR ''+''"
  "is_digit c \<Longrightarrow> c \<noteq> nl" "is_digit c \<Longrightarrow> c \<noteq> dq" "is_digit c \<Longrightarrow> c \<noteq> sq"
  by (auto simp: is_digit_def is_space_def is_int_space_def nl_def dq_def sq_def)

lemma digit_char_is_digit: "is_digit (digit_char d)"
proof -
  have "d mod 10 < 10" by simp
  then have "d mod 10 \<in> {0, 1, 2, 3, 4, 5, 6, 7, 8, 9}" by (simp; presburger)
  then show ?thesis by (auto simp: digit_char_def is_digit_def)
qed

lemma digit_val_digit_char: "d < 10 \<Longrightarrow> digit_val (digit_char d) = d"
proof -
  assume "d < 10"
  then have "d \<in> {0, 1, 2, 3, 4, 5, 6, 7, 8, 9}" by (simp; presburger)
  then show ?thesis by (auto simp: digit_val_def digit_char_def)
qed

lemma str_nat_digits: "list_all is_digit (str_nat n)"
proof (induction n rule: str_nat.induct)
  case (1 n)
  show ?case
    by (subst str_nat.simps) (use 1 in \<open>auto simp: digit_char_is_digit\<close>)
qed

lemma str_nat_nonempty: "str_nat n \<noteq> []"
  by (subst str_nat.simps) simp

lemma str_nat_small [simp]: "n < 10 \<Longrightarrow> str_nat n = [digit_char n]"
  by (subst str_nat.simps) simp

lemma all_digits_str_nat: "all_digits (str_nat n)"
  by (simp add: all_digits_def str_nat_digits str_nat_nonempty)

lemma nat_of_digits_snoc: "nat_of_digits (ds @ [c]) = 10 * nat_of_digits ds + digit_val c"
  by (simp add: nat_of_digits_def)

lemma nat_of_digits_str_nat: "nat_of_digits (str_nat n) = n"
proof (induction n rule: str_nat.induct)
  case (1 n)
  show ?case
  proof (cases "n < 10")
    case True
    then show ?thesis
      by (subst str_nat.simps) (simp add: nat_of_digits_def digit_val_digit_char)
  next
    case False
    then show ?thesis
      by (subst str_nat.simps) (use 1 in \<open>simp add: nat_of_digits_snoc digit_val_digit_char\<close>)
  qed
qed



lemma not_digit_consts [simp]:
  "\<not> is_digit CHR ''.''" "\<not> is_digit dq" "\<not> is_digit sq" "\<not> is_digit nl"
  "\<not> is_digit CHR ''_''" "\<not> is_digit CHR ''-''" "\<not> is_digit CHR ''+''"
  by (simp_all add: is_digit_def dq_def sq_def nl_def)

lemma all_digits_hd: "all_digits d \<Longrightarrow> is_digit (hd d)"
  by (cases d) (auto simp: all_digits_def)

lemma all_digits_last: "all_digits d \<Longrightarrow> is_digit (last d)"
  by (induction d) (auto simp: all_digits_def)

lemma dropWhile_hd_id: "s \<noteq> [] \<Longrightarrow> \<not> P (hd s) \<Longrightarrow> dropWhile P s = s"
  by (cases s) auto

lemma strip_like_id:
  assumes "s \<noteq> []" "\<not> P (hd s)" "\<not> P (last s)"
  shows "rev (dropWhile P (rev (dropWhile P s))) = s"
proof -
  have "dropWhile P s = s" using assms by (simp add: dropWhile_hd_id)
  moreover have "dropWhile P (rev s) = rev s"
    using assms by (intro dropWhile_hd_id) (auto simp: hd_rev)
  ultimately show ?thesis by simp
qed

lemma digits_us_digits: "list_all is_digit d \<Longrightarrow> d \<noteq> [] \<Longrightarrow> digits_us b d"
proof (induction d arbitrary: b)
  case Nil
  then show ?case by simp
next
  case (Cons c d)
  then show ?case by (cases d) auto
qed

lemma filter_digits: "list_all is_digit d \<Longrightarrow> filter is_digit d = d"
  by (induction d) auto

lemma py_int_digits: 
  assumes "all_digits d" shows "py_int d = Some (int (nat_of_digits d))"
proof -
  have ne: "d \<noteq> []" and la: "list_all is_digit d" using assms by (auto simp: all_digits_def)
  have h: "is_digit (hd d)" and l: "is_digit (last d)"
    using assms by (rule all_digits_hd, rule all_digits_last)
  have st: "rev (dropWhile is_int_space (rev (dropWhile is_int_space d))) = d"
    using ne h l by (intro strip_like_id) auto
  have sgn: "hd d \<noteq> CHR ''-''" "hd d \<noteq> CHR ''+''" using h by auto
  show ?thesis
    unfolding py_int_def st Let_def
    using ne sgn la by (simp add: digits_us_digits filter_digits)
qed

lemma split_on_nonempty: "split_on sep s \<noteq> []"
  by (induction s) auto

lemma split_on_no_sep: "sep \<notin> set a \<Longrightarrow> split_on sep a = [a]"
  by (induction a) auto

lemma split_on_append: "sep \<notin> set a \<Longrightarrow> split_on sep (a @ sep # r) = a # split_on sep r"
  by (induction a) auto

lemma digits_no_dot: "list_all is_digit d \<Longrightarrow> CHR ''.'' \<notin> set d"
  by (induction d) auto

lemma split_on_render:
  "split_on CHR ''.'' (render_version (a, b, c)) = [str_nat a, str_nat b, str_nat c]"
  by (simp add: split_on_append split_on_no_sep digits_no_dot str_nat_digits)

lemma parse_version_render: "parse_version (render_version (a, b, c)) = Some (a, b, c)"
  unfolding parse_version_def split_on_render
  by (simp add: all_digits_str_nat nat_of_digits_str_nat)

lemma parse_versionE:
  assumes "parse_version v = Some (a, b, c)"
  obtains x y z where "split_on CHR ''.'' v = [x, y, z]" "all_digits x" "all_digits y" "all_digits z"
    "nat_of_digits x = a" "nat_of_digits y = b" "nat_of_digits z = c"
  using assms unfolding parse_version_def
  by (auto split: list.splits if_splits)

lemma unpack3_parse:
  assumes "parse_version v = Some (a, b, c)"
  shows "unpack3 (split_on CHR ''.'' v) [] = Inr (int a, int b, int c)"
  using assms by (elim parse_versionE) (simp add: py_int_digits)

lemma py_str_nat: "py_str (int n) = str_nat n" "py_str (int n + 1) = str_nat (Suc n)" "py_str 0 = str_nat 0"
  by (simp_all add: py_str_def nat_add_distrib)



section \<open>The version pattern\<close>

text \<open>
  A greedy repetition followed by a character outside its class never has to give
  characters back, so the matcher on \<open>version_pattern\<close> takes the longest run of digits each
  time. The pattern accepts exactly the texts \<open>a.b.c\<close> of three non-empty runs of digits,
  with one newline allowed at the end, and \<open>parse_version\<close> accepts exactly the texts \<open>a.b.c\<close>.
\<close>

lemma star_chr:
  "\<not> P c \<Longrightarrow> match_items ml (Star P # Chr c # its) prev s =
     (case dropWhile P s of [] \<Rightarrow> None
      | x # xs \<Rightarrow> if x = c then match_items ml its (Some x) xs else None)"
proof (induction s arbitrary: prev)
  case Nil
  then show ?case by simp
next
  case (Cons x xs)
  then show ?case by (auto split: option.splits list.splits)
qed

lemma plus_chr:
  "\<not> P c \<Longrightarrow> match_items ml (Plus P # Chr c # its) prev s =
     (if takeWhile P s = [] then None
      else case dropWhile P s of [] \<Rightarrow> None
           | x # xs \<Rightarrow> if x = c then match_items ml its (Some x) xs else None)"
  by (cases s) (auto simp: star_chr)

lemma star_dollar:
  "\<not> P nl \<Longrightarrow> (match_items False [Star P, Dollar] prev s \<noteq> None) =
     (dropWhile P s = [] \<or> dropWhile P s = [nl])"
proof (induction s arbitrary: prev)
  case Nil
  then show ?case by simp
next
  case (Cons x xs)
  show ?case
  proof (cases "P x")
    case True
    with Cons.prems have "x \<noteq> nl" by auto
    then have "match_items False [Dollar] prev (x # xs) = None" by simp
    then have "(match_items False [Star P, Dollar] prev (x # xs) \<noteq> None) =
               (match_items False [Star P, Dollar] (Some x) xs \<noteq> None)"
      using True by (simp split: option.splits)
    also have "\<dots> = (dropWhile P xs = [] \<or> dropWhile P xs = [nl])"
      by (rule Cons.IH [OF Cons.prems])
    finally show ?thesis using True by simp
  next
    case False
    then show ?thesis by auto
  qed
qed

lemma plus_dollar:
  "\<not> P nl \<Longrightarrow> (match_items False [Plus P, Dollar] prev s \<noteq> None) =
     (takeWhile P s \<noteq> [] \<and> (dropWhile P s = [] \<or> dropWhile P s = [nl]))"
proof (cases s)
  case Nil
  then show ?thesis by simp
next
  case (Cons x xs)
  assume "\<not> P nl"
  from star_dollar [where P = P, OF this, of "Some x" xs] Cons show ?thesis
    by (cases "P x") simp_all
qed

lemma all_digits_takeWhile:
  "takeWhile is_digit s \<noteq> [] \<Longrightarrow> all_digits (takeWhile is_digit s)"
  by (auto simp: all_digits_def list_all_iff dest: set_takeWhileD)

lemma all_digits_split:
  assumes "all_digits a" "\<not> is_digit x"
  shows "takeWhile is_digit (a @ x # r) = a" "dropWhile is_digit (a @ x # r) = x # r"
    "takeWhile is_digit a = a" "dropWhile is_digit a = []"
  using assms by (auto simp: all_digits_def list_all_iff takeWhile_append2 dropWhile_append2)

lemma plus_chr_app:
  "all_digits a \<Longrightarrow> match_items ml (Plus is_digit # Chr CHR ''.'' # its) prev (a @ CHR ''.'' # r) =
     match_items ml its (Some CHR ''.'') r"
  by (simp add: plus_chr all_digits_split) (simp add: all_digits_def)

lemma plus_chr_elim:
  assumes "match_items ml (Plus is_digit # Chr CHR ''.'' # its) prev s \<noteq> None"
  obtains a r where "all_digits a" "s = a @ CHR ''.'' # r" "match_items ml its (Some CHR ''.'') r \<noteq> None"
proof -
  from assms have ne: "takeWhile is_digit s \<noteq> []"
    by (auto simp: plus_chr split: if_splits)
  from assms ne obtain r where dw: "dropWhile is_digit s = CHR ''.'' # r"
      and m: "match_items ml its (Some CHR ''.'') r \<noteq> None"
    by (auto simp: plus_chr split: if_splits list.splits)
  have "s = takeWhile is_digit s @ CHR ''.'' # r"
    using takeWhile_dropWhile_id [of is_digit s] dw by simp
  with all_digits_takeWhile [OF ne] m show ?thesis
    using that [of "takeWhile is_digit s" r] by blast
qed

lemma plus_dollar_iff:
  "(match_items False [Plus is_digit, Dollar] prev s \<noteq> None) =
     (\<exists>c. all_digits c \<and> (s = c \<or> s = c @ [nl]))"
proof -
  have "(match_items False [Plus is_digit, Dollar] prev s \<noteq> None) =
     (takeWhile is_digit s \<noteq> [] \<and> (dropWhile is_digit s = [] \<or> dropWhile is_digit s = [nl]))"
    by (rule plus_dollar [where P = is_digit]) simp
  also have "\<dots> = (\<exists>c. all_digits c \<and> (s = c \<or> s = c @ [nl]))"
  proof
    assume h: "takeWhile is_digit s \<noteq> [] \<and> (dropWhile is_digit s = [] \<or> dropWhile is_digit s = [nl])"
    then have "s = takeWhile is_digit s \<or> s = takeWhile is_digit s @ [nl]"
      using takeWhile_dropWhile_id [of is_digit s] by (metis append_Nil2)
    with h all_digits_takeWhile show "\<exists>c. all_digits c \<and> (s = c \<or> s = c @ [nl])" by blast
  next
    assume "\<exists>c. all_digits c \<and> (s = c \<or> s = c @ [nl])"
    then obtain c where c: "all_digits c" and s: "s = c \<or> s = c @ [nl]" by blast
    from s show "takeWhile is_digit s \<noteq> [] \<and> (dropWhile is_digit s = [] \<or> dropWhile is_digit s = [nl])"
    proof
      assume "s = c" with c show ?thesis by (simp add: all_digits_split(3,4) [OF c, of nl]) (simp add: all_digits_def)
    next
      assume "s = c @ [nl]" with c show ?thesis
        by (simp add: all_digits_split(1,2) [OF c, of nl]) (simp add: all_digits_def)
    qed
  qed
  finally show ?thesis .
qed

lemma re_match_version_iff:
  "re_match False version_pattern t =
     (\<exists>a b c. all_digits a \<and> all_digits b \<and> all_digits c \<and>
        (t = a @ ''.'' @ b @ ''.'' @ c \<or> t = a @ ''.'' @ b @ ''.'' @ c @ [nl]))"
proof
  assume "re_match False version_pattern t"
  then have m: "match_items False (Plus is_digit # Chr CHR ''.'' # [Plus is_digit, Chr CHR ''.'', Plus is_digit, Dollar]) None t \<noteq> None"
    by (simp add: re_match_def version_pattern_def)
  from m obtain a r1 where a: "all_digits a" "t = a @ CHR ''.'' # r1"
    and m1: "match_items False (Plus is_digit # Chr CHR ''.'' # [Plus is_digit, Dollar]) (Some CHR ''.'') r1 \<noteq> None"
    by (rule plus_chr_elim)
  from m1 obtain b r2 where b: "all_digits b" "r1 = b @ CHR ''.'' # r2"
    and m2: "match_items False [Plus is_digit, Dollar] (Some CHR ''.'') r2 \<noteq> None"
    by (rule plus_chr_elim)
  from m2 obtain c where c: "all_digits c" "r2 = c \<or> r2 = c @ [nl]"
    unfolding plus_dollar_iff by blast
  from a b c show "\<exists>a b c. all_digits a \<and> all_digits b \<and> all_digits c \<and>
        (t = a @ ''.'' @ b @ ''.'' @ c \<or> t = a @ ''.'' @ b @ ''.'' @ c @ [nl])"
    by auto
next
  assume "\<exists>a b c. all_digits a \<and> all_digits b \<and> all_digits c \<and>
        (t = a @ ''.'' @ b @ ''.'' @ c \<or> t = a @ ''.'' @ b @ ''.'' @ c @ [nl])"
  then obtain a b c where d: "all_digits a" "all_digits b" "all_digits c"
    and t: "t = a @ CHR ''.'' # b @ CHR ''.'' # c \<or> t = a @ CHR ''.'' # b @ CHR ''.'' # c @ [nl]"
    by auto
  have "match_items False [Plus is_digit, Dollar] (Some CHR ''.'') c \<noteq> None"
       "match_items False [Plus is_digit, Dollar] (Some CHR ''.'') (c @ [nl]) \<noteq> None"
    unfolding plus_dollar_iff using d(3) by blast+
  with t d show "re_match False version_pattern t"
    unfolding re_match_def version_pattern_def
    by (auto simp: plus_chr_app)
qed

lemma split_on_join:
  "split_on sep t = p # ps \<Longrightarrow> t = p @ concat (map (\<lambda>q. sep # q) ps)"
proof (induction t arbitrary: p ps)
  case Nil
  then show ?case by simp
next
  case (Cons x t)
  obtain q qs where q: "split_on sep t = q # qs"
    using split_on_nonempty [of sep t] by (cases "split_on sep t") auto
  from Cons.prems q have "(x = sep \<and> p = [] \<and> ps = q # qs) \<or> (p = x # q \<and> ps = qs)"
    by (auto split: if_splits)
  with Cons.IH [OF q] show ?case by auto
qed

lemma parse_version_iff:
  "(parse_version t \<noteq> None) =
     (\<exists>a b c. all_digits a \<and> all_digits b \<and> all_digits c \<and> t = a @ ''.'' @ b @ ''.'' @ c)"
proof
  assume "parse_version t \<noteq> None"
  then obtain x y z where "parse_version t = Some (x, y, z)" by auto
  then obtain a b c where s: "split_on CHR ''.'' t = [a, b, c]"
    and d: "all_digits a" "all_digits b" "all_digits c"
    by (rule parse_versionE)
  from split_on_join [OF s] d
  show "\<exists>a b c. all_digits a \<and> all_digits b \<and> all_digits c \<and> t = a @ ''.'' @ b @ ''.'' @ c"
    by auto
next
  assume "\<exists>a b c. all_digits a \<and> all_digits b \<and> all_digits c \<and> t = a @ ''.'' @ b @ ''.'' @ c"
  then obtain a b c where d: "all_digits a" "all_digits b" "all_digits c"
    and t: "t = a @ CHR ''.'' # b @ CHR ''.'' # c" by auto
  have "split_on CHR ''.'' t = [a, b, c]"
    unfolding t using d
    by (simp add: split_on_append split_on_no_sep digits_no_dot all_digits_def)
  with d show "parse_version t \<noteq> None" by (simp add: parse_version_def)
qed

lemma strip_last: "strip s = [] \<or> \<not> is_space (last (strip s))"
proof (cases "strip s = []")
  case False
  then have "dropWhile is_space (rev (dropWhile is_space s)) \<noteq> []"
    by (simp add: strip_def)
  from hd_dropWhile [OF this] show ?thesis
    by (simp add: strip_def last_rev)
qed simp

lemma re_match_strip:
  "re_match False version_pattern (strip c) = (parse_version (strip c) \<noteq> None)"
proof -
  have sp: "is_space nl" by (simp add: is_space_def nl_def)
  have "strip c \<noteq> a @ ''.'' @ b @ ''.'' @ d @ [nl]" for a b d
  proof
    assume e: "strip c = a @ ''.'' @ b @ ''.'' @ d @ [nl]"
    then have "last (strip c) = nl" by simp
    with e sp strip_last [of c] show False by auto
  qed
  then show ?thesis
    unfolding re_match_version_iff parse_version_iff by blast
qed

lemma strip_render: "strip (render_version (a, b, c)) = render_version (a, b, c)"
proof -
  have "is_digit (hd (render_version (a, b, c)))"
    using all_digits_hd [OF all_digits_str_nat, of a] str_nat_nonempty [of a] by simp
  moreover have "is_digit (last (render_version (a, b, c)))"
    using all_digits_last [OF all_digits_str_nat, of c] str_nat_nonempty [of c] by simp
  ultimately show ?thesis
    unfolding strip_def by (intro strip_like_id) (auto simp: str_nat_nonempty)
qed


section \<open>Reading the version\<close>

lemma read_version_world: "snd (read_version vf w) = w"
  by (simp add: read_version_def Let_def split: sum.splits)

text \<open>
  C2: \<open>read_version\<close> raises \<open>FileNotFoundError\<close> when the canonical file does not exist and
  \<open>ValueError\<close> when the stripped content of the file, read without an I/O failure, is not
  the text \<open>a.b.c\<close> of a version; after the text of any triple of naturals has been written to
  the file, it returns exactly that text, which parses back to the triple. The check comes
  first: when it fails the constructor yields no manager, and \<open>main\<close>, given a command,
  ends with status 1 after the traceback alone, the world otherwise untouched.
\<close>

theorem read_version_outcomes:
  "(\<not> path_exists vf w \<longrightarrow> read_version vf w = (Inl (FileNotFoundError vf), w))
   \<and> (files w vf = Some content \<and> vf \<notin> unreadable w \<and> parse_version (strip content) = None \<longrightarrow>
        read_version vf w = (Inl (ValueError (InvalidVersionFormat (strip content))), w))
   \<and> (vf \<notin> unwritable w \<and> vf \<notin> unreadable w \<longrightarrow>
        (case open_write vf (render_version (a, b, c)) w of
           (r, w') \<Rightarrow> r = Inr () \<and> read_version vf w' = (Inr (render_version (a, b, c)), w')
                      \<and> parse_version (render_version (a, b, c)) = Some (a, b, c)))
   \<and> (fst (read_version (root @ [''VERSION'']) w) = Inl e \<longrightarrow> init root w = (Inl e, w))
   \<and> (2 \<le> length argv \<and> fst (read_version [''VERSION''] w) = Inl e \<longrightarrow>
        main argv w = (1, say (Traceback e) w))"
proof (intro conjI impI)
  assume "\<not> path_exists vf w"
  then show "read_version vf w = (Inl (FileNotFoundError vf), w)"
    by (simp add: read_version_def)
next
  assume "files w vf = Some content \<and> vf \<notin> unreadable w \<and> parse_version (strip content) = None"
  then show "read_version vf w = (Inl (ValueError (InvalidVersionFormat (strip content))), w)"
    by (simp add: read_version_def path_exists_def open_read_def re_match_strip dom_def)
next
  assume h: "vf \<notin> unwritable w \<and> vf \<notin> unreadable w"
  have "re_match False version_pattern (render_version (a, b, c))"
    using re_match_strip [of "render_version (a, b, c)"]
    by (simp only: strip_render parse_version_render) simp
  with h show "case open_write vf (render_version (a, b, c)) w of
           (r, w') \<Rightarrow> r = Inr () \<and> read_version vf w' = (Inr (render_version (a, b, c)), w')
                      \<and> parse_version (render_version (a, b, c)) = Some (a, b, c)"
    by (simp add: open_write_def read_version_def path_exists_def open_read_def strip_render
          parse_version_render Let_def del: render_version.simps)
next
  assume "fst (read_version (root @ [''VERSION'']) w) = Inl e"
  then show "init root w = (Inl e, w)"
    using read_version_world [of "root @ [''VERSION'']" w]
    by (cases "read_version (root @ [''VERSION'']) w") (simp add: init_def and_then_def)
next
  assume h: "2 \<le> length argv \<and> fst (read_version [''VERSION''] w) = Inl e"
  then have "init [] w = (Inl e, w)"
    using read_version_world [of "[''VERSION'']" w]
    by (cases "read_version [''VERSION''] w") (simp add: init_def and_then_def)
  with h show "main argv w = (1, say (Traceback e) w)"
    by (simp add: main_def)
qed

theorem read_version_outcomes_witness:
  "\<not> path_exists [''VERSION''] \<lparr>files = Map.empty, unreadable = {}, unwritable = {}, out = []\<rparr>
   \<and> read_version [''VERSION''] \<lparr>files = Map.empty, unreadable = {}, unwritable = {}, out = []\<rparr>
       = (Inl (FileNotFoundError [''VERSION'']), \<lparr>files = Map.empty, unreadable = {}, unwritable = {}, out = []\<rparr>)
   \<and> init [] \<lparr>files = Map.empty, unreadable = {}, unwritable = {}, out = []\<rparr>
       = (Inl (FileNotFoundError [''VERSION'']), \<lparr>files = Map.empty, unreadable = {}, unwritable = {}, out = []\<rparr>)
   \<and> main [''version_manager.py'', ''update-all''] \<lparr>files = Map.empty, unreadable = {}, unwritable = {}, out = []\<rparr>
       = (1, \<lparr>files = Map.empty, unreadable = {}, unwritable = {}, out = [Traceback (FileNotFoundError [''VERSION''])]\<rparr>)
   \<and> parse_version (strip (''v1.0.0'' @ [nl])) = None
   \<and> fst (read_version [''VERSION'']
        \<lparr>files = [[''VERSION''] \<mapsto> ''v1.0.0'' @ [nl]], unreadable = {}, unwritable = {}, out = []\<rparr>)
       = Inl (ValueError (InvalidVersionFormat ''v1.0.0''))
   \<and> fst (read_version [''VERSION'']
        \<lparr>files = [[''VERSION''] \<mapsto> ''1.0''], unreadable = {}, unwritable = {}, out = []\<rparr>)
       = Inl (ValueError (InvalidVersionFormat ''1.0''))
   \<and> fst (read_version [''VERSION'']
        \<lparr>files = [[''VERSION''] \<mapsto> ''1.0.0-beta''], unreadable = {}, unwritable = {}, out = []\<rparr>)
       = Inl (ValueError (InvalidVersionFormat ''1.0.0-beta''))
   \<and> read_version [''VERSION'']
        \<lparr>files = [[''VERSION''] \<mapsto> ''2.10.0''], unreadable = {}, unwritable = {}, out = []\<rparr>
       = (Inr ''2.10.0'', \<lparr>files = [[''VERSION''] \<mapsto> ''2.10.0''], unreadable = {}, unwritable = {}, out = []\<rparr>)"
proof -
  let ?emp = "\<lparr>files = Map.empty, unreadable = {}, unwritable = {}, out = []\<rparr>"
  let ?one = "\<lambda>c. \<lparr>files = [[''VERSION''] \<mapsto> c], unreadable = {}, unwritable = {}, out = []\<rparr>"
  have n: "\<not> path_exists [''VERSION''] ?emp" by (simp add: path_exists_def)
  have r0: "read_version [''VERSION''] ?emp = (Inl (FileNotFoundError [''VERSION'']), ?emp)"
    using n read_version_outcomes [of "[''VERSION'']" ?emp] by simp
  have i0: "init [] ?emp = (Inl (FileNotFoundError [''VERSION'']), ?emp)"
    using r0 read_version_outcomes [of "[''VERSION'']" ?emp _ _ _ _ "[]" "FileNotFoundError [''VERSION'']"] by simp
  have m0: "main [''version_manager.py'', ''update-all''] ?emp = (1, say (Traceback (FileNotFoundError [''VERSION''])) ?emp)"
    using r0 read_version_outcomes [of "[''VERSION'']" ?emp _ _ _ _ "[]" "FileNotFoundError [''VERSION'']"
        "[''version_manager.py'', ''update-all'']"] by simp
  have sp: "strip (''v1.0.0'' @ [nl]) = ''v1.0.0''" "strip ''1.0'' = ''1.0''" "strip ''1.0.0-beta'' = ''1.0.0-beta''"
    by (simp_all add: strip_def is_space_def nl_def)
  have p: "parse_version ''v1.0.0'' = None" "parse_version ''1.0'' = None" "parse_version ''1.0.0-beta'' = None"
    by (simp_all add: parse_version_def all_digits_def is_digit_def)
  have f1: "fst (read_version [''VERSION''] (?one (''v1.0.0'' @ [nl]))) = Inl (ValueError (InvalidVersionFormat ''v1.0.0''))"
    using read_version_outcomes [of "[''VERSION'']" "?one (''v1.0.0'' @ [nl])" "''v1.0.0'' @ [nl]"] sp p by simp
  have f2: "fst (read_version [''VERSION''] (?one ''1.0'')) = Inl (ValueError (InvalidVersionFormat ''1.0''))"
    using read_version_outcomes [of "[''VERSION'']" "?one ''1.0''" "''1.0''"] sp p by simp
  have f3: "fst (read_version [''VERSION''] (?one ''1.0.0-beta'')) = Inl (ValueError (InvalidVersionFormat ''1.0.0-beta''))"
    using read_version_outcomes [of "[''VERSION'']" "?one ''1.0.0-beta''" "''1.0.0-beta''"] sp p by simp
  have rv: "render_version (2, 10, 0) = ''2.10.0''"
    by (simp add: str_nat.simps [of 10] digit_char_def)
  have g: "read_version [''VERSION''] (?one ''2.10.0'') = (Inr ''2.10.0'', ?one ''2.10.0'')"
    using read_version_outcomes [of "[''VERSION'']" ?emp _ 2 10 0] rv
    by (simp add: open_write_def del: render_version.simps)
  show ?thesis
    using n r0 i0 m0 sp p f1 f2 f3 g by (simp add: say_def)
qed


section \<open>Bumping the version\<close>

text \<open>
  Integers are unbounded, as Python's are; the interpreter's configurable limit on the
  length of a decimal conversion is not part of the model.
\<close>

lemma bump_version_valid:
  assumes "parse_version (version m) = Some (a, b, c)"
  shows "bump_version bump_type m w =
     (case (if bump_type = ''major'' then Some (Suc a, 0, 0)
            else if bump_type = ''minor'' then Some (a, Suc b, 0)
            else if bump_type = ''patch'' then Some (a, b, Suc c)
            else None) of
        None \<Rightarrow> (Inl (ValueError (InvalidBumpType bump_type)), m, w)
      | Some t \<Rightarrow>
          (case open_write (version_file m) (render_version t) w of
             (Inl e, w') \<Rightarrow> (Inl e, m, w')
           | (Inr _, w') \<Rightarrow>
               (Inr (render_version t), m\<lparr>version := render_version t\<rparr>,
                say (VersionBumped (render_version t)) w')))"
  unfolding bump_version_def unpack3_parse [OF assms]
  by (auto simp: py_str_nat Let_def split: prod.splits sum.splits)

text \<open>
  C1: when the current version is the text of a triple \<open>(a, b, c)\<close> and the canonical file
  can be written, \<open>bump_version\<close> returns the text of \<open>(a + 1, 0, 0)\<close> for \<open>major\<close>, of
  \<open>(a, b + 1, 0)\<close> for \<open>minor\<close> and of \<open>(a, b, c + 1)\<close> for \<open>patch\<close>; that text
  replaces the content of the canonical file and is the version the manager holds afterwards.
\<close>

theorem bump_version_next:
  assumes "parse_version (version m) = Some (a, b, c)"
      and "version_file m \<notin> unwritable w"
  shows "bump_version ''major'' m w =
           (let v = render_version (a + 1, 0, 0)
            in (Inr v, m\<lparr>version := v\<rparr>,
                w\<lparr>files := (files w)(version_file m \<mapsto> v), out := out w @ [VersionBumped v]\<rparr>))
       \<and> bump_version ''minor'' m w =
           (let v = render_version (a, b + 1, 0)
            in (Inr v, m\<lparr>version := v\<rparr>,
                w\<lparr>files := (files w)(version_file m \<mapsto> v), out := out w @ [VersionBumped v]\<rparr>))
       \<and> bump_version ''patch'' m w =
           (let v = render_version (a, b, c + 1)
            in (Inr v, m\<lparr>version := v\<rparr>,
                w\<lparr>files := (files w)(version_file m \<mapsto> v), out := out w @ [VersionBumped v]\<rparr>))"
  using assms(2)
  by (simp add: bump_version_valid [OF assms(1)] open_write_def say_def Let_def del: render_version.simps)

theorem bump_version_next_witness:
  "parse_version ''1.2.3'' = Some (1, 2, 3)
   \<and> [''VERSION''] \<notin> unwritable \<lparr>files = [[''VERSION''] \<mapsto> ''1.2.3''], unreadable = {}, unwritable = {}, out = []\<rparr>
   \<and> bump_version ''major'' \<lparr>project_root = [], version_file = [''VERSION''], version = ''1.2.3''\<rparr>
        \<lparr>files = [[''VERSION''] \<mapsto> ''1.2.3''], unreadable = {}, unwritable = {}, out = []\<rparr>
      = (Inr ''2.0.0'', \<lparr>project_root = [], version_file = [''VERSION''], version = ''2.0.0''\<rparr>,
         \<lparr>files = [[''VERSION''] \<mapsto> ''2.0.0''], unreadable = {}, unwritable = {}, out = [VersionBumped ''2.0.0'']\<rparr>)
   \<and> fst (bump_version ''minor'' \<lparr>project_root = [], version_file = [''VERSION''], version = ''1.2.3''\<rparr>
        \<lparr>files = [[''VERSION''] \<mapsto> ''1.2.3''], unreadable = {}, unwritable = {}, out = []\<rparr>) = Inr ''1.3.0''
   \<and> fst (bump_version ''patch'' \<lparr>project_root = [], version_file = [''VERSION''], version = ''1.2.3''\<rparr>
        \<lparr>files = [[''VERSION''] \<mapsto> ''1.2.3''], unreadable = {}, unwritable = {}, out = []\<rparr>) = Inr ''1.2.4''"
proof -
  have p: "parse_version ''1.2.3'' = Some (1, 2, 3)"
    by (simp add: parse_version_def all_digits_def is_digit_def nat_of_digits_def digit_val_def)
  show ?thesis
    using p bump_version_next [of "\<lparr>project_root = [], version_file = [''VERSION''], version = ''1.2.3''\<rparr>" 1 2 3
        "\<lparr>files = [[''VERSION''] \<mapsto> ''1.2.3''], unreadable = {}, unwritable = {}, out = []\<rparr>"]
    by (simp add: digit_char_def Let_def)
qed

text \<open>
  C3: for a kind other than \<open>major\<close>, \<open>minor\<close> and \<open>patch\<close>, \<open>bump_version\<close> raises a
  \<open>ValueError\<close> and leaves the manager and the world, hence the canonical file, as they were;
  with a valid current version the error is the one about the bump type.
\<close>

theorem bump_version_other_kind:
  assumes "bump_type \<notin> {''major'', ''minor'', ''patch''}"
  shows "(\<exists>ve. bump_version bump_type m w = (Inl (ValueError ve), m, w))
       \<and> (parse_version (version m) \<noteq> None \<longrightarrow>
            bump_version bump_type m w = (Inl (ValueError (InvalidBumpType bump_type)), m, w))"
proof -
  have "\<exists>ve. bump_version bump_type m w = (Inl (ValueError ve), m, w)"
    using assms unfolding bump_version_def
    by (auto split: sum.splits)
  moreover have "bump_version bump_type m w = (Inl (ValueError (InvalidBumpType bump_type)), m, w)"
    if "parse_version (version m) \<noteq> None"
  proof -
    from that obtain a b c where "parse_version (version m) = Some (a, b, c)" by auto
    from bump_version_valid [OF this] assms show ?thesis by simp
  qed
  ultimately show ?thesis by blast
qed

theorem bump_version_other_kind_witness:
  "''bogus'' \<notin> {''major'', ''minor'', ''patch''}
   \<and> parse_version ''1.2.3'' \<noteq> None
   \<and> bump_version ''bogus'' \<lparr>project_root = [], version_file = [''VERSION''], version = ''1.2.3''\<rparr>
        \<lparr>files = [[''VERSION''] \<mapsto> ''1.2.3''], unreadable = {}, unwritable = {}, out = []\<rparr>
      = (Inl (ValueError (InvalidBumpType ''bogus'')),
         \<lparr>project_root = [], version_file = [''VERSION''], version = ''1.2.3''\<rparr>,
         \<lparr>files = [[''VERSION''] \<mapsto> ''1.2.3''], unreadable = {}, unwritable = {}, out = []\<rparr>)"
proof -
  have k: "''bogus'' \<notin> {''major'', ''minor'', ''patch''}" by simp
  have p: "parse_version ''1.2.3'' \<noteq> None"
    by (simp add: parse_version_def all_digits_def is_digit_def)
  show ?thesis
    using k p bump_version_other_kind [OF k, of "\<lparr>project_root = [], version_file = [''VERSION''], version = ''1.2.3''\<rparr>"
        "\<lparr>files = [[''VERSION''] \<mapsto> ''1.2.3''], unreadable = {}, unwritable = {}, out = []\<rparr>"]
    by simp
qed


section \<open>The propagation steps\<close>

text \<open>Each step, by cases on the file, its content and the I/O failures.\<close>

lemma update_backend_version_cases:
  "update_backend_version m w =
     (let p = project_root m @ [''backend'', ''Cargo.toml'']
      in case files w p of
           None \<Rightarrow> (Inr False, say (BackendNotFound p) w)
         | Some content \<Rightarrow>
             if p \<in> unreadable w then (Inr False, say (BackendError (OSError p)) w)
             else if \<not> re_search True backend_pattern content
             then (Inr False, say (BackendNoVersionLine p) w)
             else if p \<in> unwritable w then (Inr False, say (BackendError (OSError p)) w)
             else (Inr True,
                   say (BackendUpdated (version m))
                     (w\<lparr>files := (files w)(p \<mapsto>
                        re_sub True backend_pattern (''version = '' @ [dq] @ version m @ [dq]) content)\<rparr>)))"
  by (auto simp: update_backend_version_def backend_try_def try_except_def and_then_def
      path_exists_def open_read_def open_write_def Let_def dom_def split: option.splits)

lemma update_frontend_version_cases:
  "update_frontend_version m w =
     (let p = project_root m @ [''frontend'', ''package.json'']
      in case files w p of
           None \<Rightarrow> (Inr False, say (FrontendNotFound p) w)
         | Some content \<Rightarrow>
             if p \<in> unreadable w then (Inr False, say (FrontendError (OSError p)) w)
             else if \<not> re_search False frontend_pattern content
             then (Inr False, say (FrontendNoVersionLine p) w)
             else if p \<in> unwritable w then (Inr False, say (FrontendError (OSError p)) w)
             else (Inr True,
                   say (FrontendUpdated (version m))
                     (w\<lparr>files := (files w)(p \<mapsto>
                        re_sub False frontend_pattern
                          ([dq] @ ''version'' @ [dq] @ '': '' @ [dq] @ version m @ [dq]) content)\<rparr>)))"
  by (auto simp: update_frontend_version_def frontend_try_def try_except_def and_then_def
      path_exists_def open_read_def open_write_def Let_def dom_def split: option.splits)

lemma ts_pass_cases:
  "ts_pass m f updated w =
     (let p = project_root m @ f
      in case files w p of
           None \<Rightarrow> (Inr updated, say (TsNotFound f) w)
         | Some content \<Rightarrow>
             if p \<in> unreadable w then (Inr updated, say (TsError f (OSError p)) w)
             else if \<not> re_search False ts_pattern content
             then (Inr updated, say (TsNoVersionString f) w)
             else if p \<in> unwritable w then (Inr updated, say (TsError f (OSError p)) w)
             else (Inr True,
                   say (TsUpdated f)
                     (w\<lparr>files := (files w)(p \<mapsto>
                        re_sub False ts_pattern (''return '' @ [sq] @ version m @ [sq]) content)\<rparr>)))"
  by (auto simp: ts_pass_def ts_try_def try_except_def and_then_def
      path_exists_def open_read_def open_write_def Let_def dom_def split: option.splits)

lemma create_version_header_cases:
  "create_version_header m w =
     (let p = project_root m @ [''frontend'', ''src'', ''version.ts'']
      in if p \<in> unwritable w then (Inr False, say (HeaderError (OSError p)) w)
         else (Inr True,
               say (HeaderCreated p) (w\<lparr>files := (files w)(p \<mapsto> header_content (version m))\<rparr>)))"
  by (auto simp: create_version_header_def try_except_def and_then_def open_write_def Let_def)

text \<open>Every step returns a flag, prints one line about itself and keeps the I/O failures.\<close>

lemma update_backend_version_step:
  "\<exists>b w' l. update_backend_version m w = (Inr b, w') \<and> out w' = out w @ [l]
     \<and> step_of l = BackendStep \<and> unreadable w' = unreadable w \<and> unwritable w' = unwritable w"
  by (auto simp: update_backend_version_cases Let_def say_def split: option.splits)

lemma update_frontend_version_step:
  "\<exists>b w' l. update_frontend_version m w = (Inr b, w') \<and> out w' = out w @ [l]
     \<and> step_of l = FrontendStep \<and> unreadable w' = unreadable w \<and> unwritable w' = unwritable w"
  by (auto simp: update_frontend_version_cases Let_def say_def split: option.splits)

lemma ts_pass_step:
  "\<exists>b w' l. ts_pass m f updated w = (Inr b, w') \<and> out w' = out w @ [l]
     \<and> step_of l = TsStep f \<and> unreadable w' = unreadable w \<and> unwritable w' = unwritable w"
  by (auto simp: ts_pass_cases Let_def say_def split: option.splits)

lemma ts_loop_step:
  "\<exists>b w' ls. ts_loop m fs updated w = (Inr b, w') \<and> out w' = out w @ ls
     \<and> map step_of ls = map TsStep fs \<and> unreadable w' = unreadable w \<and> unwritable w' = unwritable w"
proof (induction fs arbitrary: updated w)
  case Nil
  then show ?case by simp
next
  case (Cons f fs)
  obtain b w1 l where 1: "ts_pass m f updated w = (Inr b, w1)" "out w1 = out w @ [l]"
    "step_of l = TsStep f" "unreadable w1 = unreadable w" "unwritable w1 = unwritable w"
    using ts_pass_step by blast
  obtain b' w2 ls where 2: "ts_loop m fs b w1 = (Inr b', w2)" "out w2 = out w1 @ ls"
    "map step_of ls = map TsStep fs" "unreadable w2 = unreadable w1" "unwritable w2 = unwritable w1"
    using Cons.IH by blast
  have "ts_loop m (f # fs) updated w = (Inr b', w2)"
    using 1 2 by (simp add: and_then_def)
  moreover have "out w2 = out w @ (l # ls)" using 1 2 by simp
  moreover have "map step_of (l # ls) = map TsStep (f # fs)" using 1 2 by simp
  ultimately show ?case using 1 2 by metis
qed

lemma update_typescript_version_step:
  "\<exists>b w' ls. update_typescript_version m w = (Inr b, w') \<and> out w' = out w @ ls
     \<and> map step_of ls = map TsStep ts_files \<and> unreadable w' = unreadable w \<and> unwritable w' = unwritable w"
  unfolding update_typescript_version_def by (rule ts_loop_step)

text \<open>The flag of the TypeScript step: some file of the list was rewritten.\<close>

lemma update_typescript_version_flag:
  "fst (update_typescript_version m w) =
     Inr (\<exists>f content. f \<in> set ts_files \<and> files w (project_root m @ f) = Some content
            \<and> project_root m @ f \<notin> unreadable w \<and> re_search False ts_pattern content
            \<and> project_root m @ f \<notin> unwritable w)"
  unfolding update_typescript_version_def ts_files_def
  by (auto simp: ts_pass_cases and_then_def Let_def say_def split: option.splits)

lemma create_version_header_step:
  "\<exists>b w' l. create_version_header m w = (Inr b, w') \<and> out w' = out w @ [l]
     \<and> step_of l = HeaderStep \<and> unreadable w' = unreadable w \<and> unwritable w' = unwritable w"
  by (auto simp: create_version_header_cases Let_def say_def)

lemma update_all_components_steps:
  "\<exists>backend w1 frontend_package w2 typescript w3 version_header w4 l1 l2 ls l4.
     update_backend_version m w = (Inr backend, w1)
   \<and> update_frontend_version m w1 = (Inr frontend_package, w2)
   \<and> update_typescript_version m w2 = (Inr typescript, w3)
   \<and> create_version_header m w3 = (Inr version_header, w4)
   \<and> update_all_components m w =
       (Inr [(''backend'', backend), (''frontend_package'', frontend_package),
             (''typescript'', typescript), (''version_header'', version_header)], w4)
   \<and> out w4 = out w @ l1 # l2 # ls @ [l4]
   \<and> step_of l1 = BackendStep \<and> step_of l2 = FrontendStep
   \<and> map step_of ls = map TsStep ts_files \<and> step_of l4 = HeaderStep"
proof -
  obtain b w1 l1 where 1: "update_backend_version m w = (Inr b, w1)" "out w1 = out w @ [l1]"
    "step_of l1 = BackendStep"
    using update_backend_version_step by blast
  obtain f w2 l2 where 2: "update_frontend_version m w1 = (Inr f, w2)" "out w2 = out w1 @ [l2]"
    "step_of l2 = FrontendStep"
    using update_frontend_version_step by blast
  obtain t w3 ls where 3: "update_typescript_version m w2 = (Inr t, w3)" "out w3 = out w2 @ ls"
    "map step_of ls = map TsStep ts_files"
    using update_typescript_version_step by blast
  obtain h w4 l4 where 4: "create_version_header m w3 = (Inr h, w4)" "out w4 = out w3 @ [l4]"
    "step_of l4 = HeaderStep"
    using create_version_header_step by blast
  have "update_all_components m w =
       (Inr [(''backend'', b), (''frontend_package'', f), (''typescript'', t), (''version_header'', h)], w4)"
    using 1 2 3 4 by (simp add: update_all_components_def and_then_def)
  moreover have "out w4 = out w @ l1 # l2 # ls @ [l4]" using 1 2 3 4 by simp
  ultimately show ?thesis using 1 2 3 4 by blast
qed

text \<open>
  C4: \<open>update_all_components\<close> runs the backend step, the frontend step, the TypeScript
  step and the declarations step, each in the world its predecessor left, whatever flags
  they return; it returns the four flags under their names, in this order, and never an
  exception. What it prints is one line for the backend, one for the frontend, one for each
  TypeScript file and one for the declarations file, in this order: every step ran once.
\<close>

theorem update_all_components_runs_every_step:
  "\<exists>backend w1 frontend_package w2 typescript w3 version_header w4.
     update_backend_version m w = (Inr backend, w1)
   \<and> update_frontend_version m w1 = (Inr frontend_package, w2)
   \<and> update_typescript_version m w2 = (Inr typescript, w3)
   \<and> create_version_header m w3 = (Inr version_header, w4)
   \<and> update_all_components m w =
       (Inr [(''backend'', backend), (''frontend_package'', frontend_package),
             (''typescript'', typescript), (''version_header'', version_header)], w4)
   \<and> map step_of (drop (length (out w)) (out w4)) =
       [BackendStep, FrontendStep] @ map TsStep ts_files @ [HeaderStep]
   \<and> take (length (out w)) (out w4) = out w"
proof -
  obtain b w1 f w2 t w3 h w4 l1 l2 ls l4 where
    s: "update_backend_version m w = (Inr b, w1)" "update_frontend_version m w1 = (Inr f, w2)"
       "update_typescript_version m w2 = (Inr t, w3)" "create_version_header m w3 = (Inr h, w4)"
       "update_all_components m w =
         (Inr [(''backend'', b), (''frontend_package'', f), (''typescript'', t), (''version_header'', h)], w4)"
    and o: "out w4 = out w @ l1 # l2 # ls @ [l4]" "step_of l1 = BackendStep" "step_of l2 = FrontendStep"
       "map step_of ls = map TsStep ts_files" "step_of l4 = HeaderStep"
    using update_all_components_steps [of m w] by blast
  from o have "map step_of (drop (length (out w)) (out w4)) =
       [BackendStep, FrontendStep] @ map TsStep ts_files @ [HeaderStep]"
     "take (length (out w)) (out w4) = out w"
    by simp_all
  with s show ?thesis by blast
qed

theorem update_all_components_runs_every_step_witness:
  "\<exists>w4.
     update_all_components \<lparr>project_root = [], version_file = [''VERSION''], version = ''2.1.0''\<rparr>
       \<lparr>files = [[''backend'', ''Cargo.toml''] \<mapsto> ''version = '' @ [dq] @ ''2.0.9'' @ [dq],
                 [''frontend'', ''package.json''] \<mapsto> ''{}''],
        unreadable = {}, unwritable = {}, out = []\<rparr>
     = (Inr [(''backend'', True), (''frontend_package'', False),
             (''typescript'', False), (''version_header'', True)], w4)
     \<and> files w4 [''backend'', ''Cargo.toml''] = Some (''version = '' @ [dq] @ ''2.1.0'' @ [dq])
     \<and> files w4 [''frontend'', ''package.json''] = Some ''{}''"
proof -
  let ?m = "\<lparr>project_root = [], version_file = [''VERSION''], version = ''2.1.0''\<rparr>"
  let ?u = "\<lparr>files = [[''backend'', ''Cargo.toml''] \<mapsto> ''version = '' @ [dq] @ ''2.0.9'' @ [dq],
                 [''frontend'', ''package.json''] \<mapsto> ''{}''],
        unreadable = {}, unwritable = {}, out = []\<rparr>"
  have s: "re_search True backend_pattern (''version = '' @ [dq] @ ''2.0.9'' @ [dq])"
    by (simp add: re_search_def backend_pattern_def is_space_def not_dq_def dq_def nl_def)
  have r: "re_sub True backend_pattern (''version = '' @ [dq] @ ''2.1.0'' @ [dq]) (''version = '' @ [dq] @ ''2.0.9'' @ [dq])
     = ''version = '' @ [dq] @ ''2.1.0'' @ [dq]"
    by (simp add: re_sub_def backend_pattern_def is_space_def not_dq_def dq_def nl_def)
  have f: "\<not> re_search False frontend_pattern ''{}''"
    by (simp add: re_search_def frontend_pattern_def dq_def)
  have b: "update_backend_version ?m ?u = (Inr True,
     \<lparr>files = [[''backend'', ''Cargo.toml''] \<mapsto> ''version = '' @ [dq] @ ''2.1.0'' @ [dq],
                 [''frontend'', ''package.json''] \<mapsto> ''{}''],
        unreadable = {}, unwritable = {}, out = [BackendUpdated ''2.1.0'']\<rparr>)"
    using s r by (simp add: update_backend_version_cases say_def fun_upd_twist)
  show ?thesis
    using update_all_components_runs_every_step [of ?m ?u] b f
    by (auto simp: update_all_components_def and_then_def update_frontend_version_cases
          update_typescript_version_def ts_files_def ts_pass_cases create_version_header_cases
          say_def Let_def)
qed


section \<open>Targets without a match\<close>

lemma say_out: "say l w = w\<lparr>out := out w @ [l]\<rparr>"
  by (simp add: say_def)

lemma ts_loop_no_match:
  assumes "\<forall>f\<in>set fs. \<forall>content. files w (project_root m @ f) = Some content \<longrightarrow>
             \<not> re_search False ts_pattern content"
  shows "\<exists>w'. ts_loop m fs updated w = (Inr updated, w') \<and> files w' = files w"
  using assms
proof (induction fs arbitrary: w)
  case Nil
  then show ?case by simp
next
  case (Cons f fs)
  from Cons.prems have "fst (ts_pass m f updated w) = Inr updated \<and> files (snd (ts_pass m f updated w)) = files w"
    by (cases "files w (project_root m @ f)") (simp_all add: ts_pass_cases Let_def say_def)
  then obtain w1 where 1: "ts_pass m f updated w = (Inr updated, w1)" "files w1 = files w"
    by (cases "ts_pass m f updated w") auto
  with Cons.prems have "\<forall>f\<in>set fs. \<forall>content. files w1 (project_root m @ f) = Some content \<longrightarrow>
             \<not> re_search False ts_pattern content" by simp
  from Cons.IH [OF this] 1 show ?case by (auto simp: and_then_def)
qed

text \<open>
  C5, as the claim states it, fails for the TypeScript target: with a match in
  \<open>AutoUpdater.ts\<close> and none in the existing \<open>BackendService.ts\<close>, the step returns
  \<open>True\<close>.
\<close>

theorem typescript_pattern_absent_yet_success:
  "files \<lparr>files = [[''frontend'', ''src'', ''services'', ''AutoUpdater.ts''] \<mapsto> ''return '' @ [sq] @ ''1.0.0'' @ [sq],
                   [''frontend'', ''src'', ''services'', ''BackendService.ts''] \<mapsto> ''export {}''],
          unreadable = {}, unwritable = {}, out = []\<rparr>
     [''frontend'', ''src'', ''services'', ''BackendService.ts''] = Some ''export {}''
   \<and> \<not> re_search False ts_pattern ''export {}''
   \<and> fst (update_typescript_version \<lparr>project_root = [], version_file = [''VERSION''], version = ''2.1.0''\<rparr>
        \<lparr>files = [[''frontend'', ''src'', ''services'', ''AutoUpdater.ts''] \<mapsto> ''return '' @ [sq] @ ''1.0.0'' @ [sq],
                   [''frontend'', ''src'', ''services'', ''BackendService.ts''] \<mapsto> ''export {}''],
          unreadable = {}, unwritable = {}, out = []\<rparr>) = Inr True"
proof -
  have a: "re_search False ts_pattern (''return '' @ [sq] @ ''1.0.0'' @ [sq])"
    by (simp add: re_search_def ts_pattern_def sq_def)
  have b: "\<not> re_search False ts_pattern ''export {}''"
    by (simp add: re_search_def ts_pattern_def sq_def)
  show ?thesis
    using a b
    by (simp add: update_typescript_version_def ts_files_def ts_pass_cases and_then_def say_def Let_def)
qed

text \<open>
  C5, amended: when the file of the backend or of the frontend target exists and its
  content has no match of the target's pattern, the step returns \<open>False\<close> and the file map is
  what it was; if the file can be read, the step is exactly the warning that the version
  line was not found. One pass over a TypeScript file without a match keeps \<open>updated\<close> and
  the file map, and the TypeScript step returns \<open>False\<close> with the file map unchanged when no
  file of its list has a match; in general its flag says whether some file of the list was
  rewritten.
\<close>

theorem pattern_absent_file_unchanged:
  "(files w (project_root m @ [''backend'', ''Cargo.toml'']) = Some content
      \<and> \<not> re_search True backend_pattern content \<longrightarrow>
      fst (update_backend_version m w) = Inr False
      \<and> files (snd (update_backend_version m w)) = files w
      \<and> (project_root m @ [''backend'', ''Cargo.toml''] \<notin> unreadable w \<longrightarrow>
           update_backend_version m w =
             (Inr False, w\<lparr>out := out w @ [BackendNoVersionLine (project_root m @ [''backend'', ''Cargo.toml''])]\<rparr>)))
   \<and> (files w (project_root m @ [''frontend'', ''package.json'']) = Some content
      \<and> \<not> re_search False frontend_pattern content \<longrightarrow>
      fst (update_frontend_version m w) = Inr False
      \<and> files (snd (update_frontend_version m w)) = files w
      \<and> (project_root m @ [''frontend'', ''package.json''] \<notin> unreadable w \<longrightarrow>
           update_frontend_version m w =
             (Inr False, w\<lparr>out := out w @ [FrontendNoVersionLine (project_root m @ [''frontend'', ''package.json''])]\<rparr>)))
   \<and> (files w (project_root m @ f) = Some content
      \<and> \<not> re_search False ts_pattern content \<longrightarrow>
      fst (ts_pass m f updated w) = Inr updated
      \<and> files (snd (ts_pass m f updated w)) = files w
      \<and> (project_root m @ f \<notin> unreadable w \<longrightarrow>
           ts_pass m f updated w = (Inr updated, w\<lparr>out := out w @ [TsNoVersionString f]\<rparr>)))
   \<and> ((\<forall>f\<in>set ts_files. \<forall>content. files w (project_root m @ f) = Some content \<longrightarrow>
             \<not> re_search False ts_pattern content) \<longrightarrow>
      fst (update_typescript_version m w) = Inr False
      \<and> files (snd (update_typescript_version m w)) = files w)
   \<and> fst (update_typescript_version m w) =
       Inr (\<exists>g c. g \<in> set ts_files \<and> files w (project_root m @ g) = Some c
              \<and> project_root m @ g \<notin> unreadable w \<and> re_search False ts_pattern c
              \<and> project_root m @ g \<notin> unwritable w)"
proof (intro conjI impI)
  show "fst (update_typescript_version m w) =
       Inr (\<exists>g c. g \<in> set ts_files \<and> files w (project_root m @ g) = Some c
              \<and> project_root m @ g \<notin> unreadable w \<and> re_search False ts_pattern c
              \<and> project_root m @ g \<notin> unwritable w)"
    by (rule update_typescript_version_flag)
next
  assume h: "\<forall>f\<in>set ts_files. \<forall>content. files w (project_root m @ f) = Some content \<longrightarrow>
             \<not> re_search False ts_pattern content"
  from ts_loop_no_match [OF this, of False]
  show "fst (update_typescript_version m w) = Inr False"
    "files (snd (update_typescript_version m w)) = files w"
    by (auto simp: update_typescript_version_def)
qed (auto simp: update_backend_version_cases update_frontend_version_cases ts_pass_cases
       say_out Let_def)

theorem pattern_absent_file_unchanged_witness:
  "files \<lparr>files = [[''backend'', ''Cargo.toml''] \<mapsto> ''[package]'',
                   [''frontend'', ''package.json''] \<mapsto> ''{}'',
                   [''frontend'', ''src'', ''services'', ''AutoUpdater.ts''] \<mapsto> ''export {}'',
                   [''frontend'', ''src'', ''services'', ''BackendService.ts''] \<mapsto> ''export {}''],
          unreadable = {}, unwritable = {}, out = []\<rparr> [''backend'', ''Cargo.toml''] = Some ''[package]''
   \<and> \<not> re_search True backend_pattern ''[package]''
   \<and> \<not> re_search False frontend_pattern ''{}''
   \<and> \<not> re_search False ts_pattern ''export {}''
   \<and> update_backend_version \<lparr>project_root = [], version_file = [''VERSION''], version = ''2.1.0''\<rparr>
        \<lparr>files = [[''backend'', ''Cargo.toml''] \<mapsto> ''[package]'',
                   [''frontend'', ''package.json''] \<mapsto> ''{}'',
                   [''frontend'', ''src'', ''services'', ''AutoUpdater.ts''] \<mapsto> ''export {}'',
                   [''frontend'', ''src'', ''services'', ''BackendService.ts''] \<mapsto> ''export {}''],
          unreadable = {}, unwritable = {}, out = []\<rparr>
      = (Inr False,
         \<lparr>files = [[''backend'', ''Cargo.toml''] \<mapsto> ''[package]'',
                   [''frontend'', ''package.json''] \<mapsto> ''{}'',
                   [''frontend'', ''src'', ''services'', ''AutoUpdater.ts''] \<mapsto> ''export {}'',
                   [''frontend'', ''src'', ''services'', ''BackendService.ts''] \<mapsto> ''export {}''],
          unreadable = {}, unwritable = {}, out = [BackendNoVersionLine [''backend'', ''Cargo.toml'']]\<rparr>)
   \<and> fst (update_frontend_version \<lparr>project_root = [], version_file = [''VERSION''], version = ''2.1.0''\<rparr>
        \<lparr>files = [[''backend'', ''Cargo.toml''] \<mapsto> ''[package]'',
                   [''frontend'', ''package.json''] \<mapsto> ''{}'',
                   [''frontend'', ''src'', ''services'', ''AutoUpdater.ts''] \<mapsto> ''export {}'',
                   [''frontend'', ''src'', ''services'', ''BackendService.ts''] \<mapsto> ''export {}''],
          unreadable = {}, unwritable = {}, out = []\<rparr>) = Inr False
   \<and> fst (update_typescript_version \<lparr>project_root = [], version_file = [''VERSION''], version = ''2.1.0''\<rparr>
        \<lparr>files = [[''backend'', ''Cargo.toml''] \<mapsto> ''[package]'',
                   [''frontend'', ''package.json''] \<mapsto> ''{}'',
                   [''frontend'', ''src'', ''services'', ''AutoUpdater.ts''] \<mapsto> ''export {}'',
                   [''frontend'', ''src'', ''services'', ''BackendService.ts''] \<mapsto> ''export {}''],
          unreadable = {}, unwritable = {}, out = []\<rparr>) = Inr False"
proof -
  let ?m = "\<lparr>project_root = [], version_file = [''VERSION''], version = ''2.1.0''\<rparr>"
  let ?u = "\<lparr>files = [[''backend'', ''Cargo.toml''] \<mapsto> ''[package]'',
                   [''frontend'', ''package.json''] \<mapsto> ''{}'',
                   [''frontend'', ''src'', ''services'', ''AutoUpdater.ts''] \<mapsto> ''export {}'',
                   [''frontend'', ''src'', ''services'', ''BackendService.ts''] \<mapsto> ''export {}''],
          unreadable = {}, unwritable = {}, out = []\<rparr>"
  have b: "\<not> re_search True backend_pattern ''[package]''"
    by (simp add: re_search_def backend_pattern_def nl_def)
  have f: "\<not> re_search False frontend_pattern ''{}''"
    by (simp add: re_search_def frontend_pattern_def dq_def)
  have t: "\<not> re_search False ts_pattern ''export {}''"
    by (simp add: re_search_def ts_pattern_def)
  have all: "\<forall>f\<in>set ts_files. \<forall>content. files ?u (project_root ?m @ f) = Some content \<longrightarrow>
             \<not> re_search False ts_pattern content"
    using t by (simp add: ts_files_def)
  show ?thesis
    using b f t all
      pattern_absent_file_unchanged [of ?u ?m "''[package]''"]
      pattern_absent_file_unchanged [of ?u ?m "''{}''"]
    by simp
qed


section \<open>Missing target files\<close>

lemma ts_loop_all_missing:
  assumes "\<forall>f\<in>set fs. \<not> path_exists (project_root m @ f) w"
  shows "ts_loop m fs updated w = (Inr updated, w\<lparr>out := out w @ map TsNotFound fs\<rparr>)"
  using assms
proof (induction fs arbitrary: w)
  case Nil
  then show ?case by simp
next
  case (Cons f fs)
  have 1: "ts_pass m f updated w = (Inr updated, w\<lparr>out := out w @ [TsNotFound f]\<rparr>)"
    using Cons.prems by (simp add: ts_pass_def say_out)
  have "\<forall>g\<in>set fs. \<not> path_exists (project_root m @ g) (w\<lparr>out := out w @ [TsNotFound f]\<rparr>)"
    using Cons.prems by (simp add: path_exists_def)
  from Cons.IH [OF this] 1 show ?case by (simp add: and_then_def)
qed

lemma step_dom:
  "dom (files (snd (update_backend_version m w))) = dom (files w)"
  "dom (files (snd (update_frontend_version m w))) = dom (files w)"
  "dom (files (snd (ts_pass m f updated w))) = dom (files w)"
  by (auto simp: update_backend_version_cases update_frontend_version_cases ts_pass_cases
      Let_def say_def split: option.splits if_splits)

lemma ts_loop_dom: "dom (files (snd (ts_loop m fs updated w))) = dom (files w)"
proof (induction fs arbitrary: updated w)
  case Nil
  then show ?case by simp
next
  case (Cons f fs)
  obtain b w1 where 1: "ts_pass m f updated w = (Inr b, w1)"
    using ts_pass_step by blast
  with step_dom(3) [of m f updated w] have "dom (files w1) = dom (files w)" by simp
  with Cons.IH [of b w1] 1 show ?case by (simp add: and_then_def)
qed

lemma header_dom:
  "dom (files (snd (create_version_header m w))) \<subseteq>
     insert (project_root m @ [''frontend'', ''src'', ''version.ts'']) (dom (files w))"
  by (auto simp: create_version_header_cases Let_def say_def split: if_splits)

lemma update_all_components_dom:
  "dom (files (snd (update_all_components m w))) \<subseteq>
     insert (project_root m @ [''frontend'', ''src'', ''version.ts'']) (dom (files w))"
proof -
  obtain b w1 f w2 t w3 h w4 where
    s: "update_backend_version m w = (Inr b, w1)" "update_frontend_version m w1 = (Inr f, w2)"
       "update_typescript_version m w2 = (Inr t, w3)" "create_version_header m w3 = (Inr h, w4)"
       "update_all_components m w =
         (Inr [(''backend'', b), (''frontend_package'', f), (''typescript'', t), (''version_header'', h)], w4)"
    using update_all_components_steps [of m w] by blast
  have "dom (files w1) = dom (files w)" using step_dom(1) [of m w] s by simp
  moreover have "dom (files w2) = dom (files w1)" using step_dom(2) [of m w1] s by simp
  moreover have "dom (files w3) = dom (files w2)"
    using ts_loop_dom [of m ts_files False w2] s by (simp add: update_typescript_version_def)
  moreover have "dom (files w4) \<subseteq> insert (project_root m @ [''frontend'', ''src'', ''version.ts'']) (dom (files w3))"
    using header_dom [of m w3] s by simp
  ultimately show ?thesis using s by simp
qed


text \<open>
  C6, as the claim states it, fails for the TypeScript target: with a match in
  \<open>AutoUpdater.ts\<close> and \<open>BackendService.ts\<close> missing, the step returns \<open>True\<close>.
\<close>

theorem typescript_missing_file_yet_success:
  "\<not> path_exists [''frontend'', ''src'', ''services'', ''BackendService.ts'']
       \<lparr>files = [[''frontend'', ''src'', ''services'', ''AutoUpdater.ts''] \<mapsto> ''return '' @ [sq] @ ''1.0.0'' @ [sq]],
          unreadable = {}, unwritable = {}, out = []\<rparr>
   \<and> fst (update_typescript_version \<lparr>project_root = [], version_file = [''VERSION''], version = ''2.1.0''\<rparr>
        \<lparr>files = [[''frontend'', ''src'', ''services'', ''AutoUpdater.ts''] \<mapsto> ''return '' @ [sq] @ ''1.0.0'' @ [sq]],
          unreadable = {}, unwritable = {}, out = []\<rparr>) = Inr True"
proof -
  have a: "re_search False ts_pattern (''return '' @ [sq] @ ''1.0.0'' @ [sq])"
    by (simp add: re_search_def ts_pattern_def sq_def)
  show ?thesis
    using a
    by (simp add: update_typescript_version_def ts_files_def ts_pass_cases and_then_def say_def Let_def
          path_exists_def)
qed

text \<open>
  C6, amended: when the file of a target does not exist, the backend step and the frontend
  step return \<open>False\<close> and only print the warning, and a pass over a missing TypeScript file
  keeps \<open>updated\<close> and only prints the warning; with every TypeScript file missing the step
  returns \<open>False\<close>, and in general its flag says whether some file of the list was
  rewritten. The failure is not fatal: \<open>update_all_components\<close> still returns the four
  flags, and the only path it can create is that of the declarations file.
\<close>

theorem missing_target_reported_not_created:
  "(\<not> path_exists (project_root m @ [''backend'', ''Cargo.toml'']) w \<longrightarrow>
      update_backend_version m w =
        (Inr False, w\<lparr>out := out w @ [BackendNotFound (project_root m @ [''backend'', ''Cargo.toml''])]\<rparr>))
   \<and> (\<not> path_exists (project_root m @ [''frontend'', ''package.json'']) w \<longrightarrow>
      update_frontend_version m w =
        (Inr False, w\<lparr>out := out w @ [FrontendNotFound (project_root m @ [''frontend'', ''package.json''])]\<rparr>))
   \<and> (\<not> path_exists (project_root m @ f) w \<longrightarrow>
      ts_pass m f updated w = (Inr updated, w\<lparr>out := out w @ [TsNotFound f]\<rparr>))
   \<and> ((\<forall>g\<in>set ts_files. \<not> path_exists (project_root m @ g) w) \<longrightarrow>
      update_typescript_version m w = (Inr False, w\<lparr>out := out w @ map TsNotFound ts_files\<rparr>))
   \<and> (\<exists>flags w'. update_all_components m w = (Inr flags, w')
        \<and> map fst flags = [''backend'', ''frontend_package'', ''typescript'', ''version_header'']
        \<and> (\<forall>p. path_exists p w' \<longrightarrow>
              path_exists p w \<or> p = project_root m @ [''frontend'', ''src'', ''version.ts'']))
   \<and> fst (update_typescript_version m w) =
       Inr (\<exists>g c. g \<in> set ts_files \<and> files w (project_root m @ g) = Some c
              \<and> project_root m @ g \<notin> unreadable w \<and> re_search False ts_pattern c
              \<and> project_root m @ g \<notin> unwritable w)"
proof (intro conjI impI)
  show "fst (update_typescript_version m w) =
       Inr (\<exists>g c. g \<in> set ts_files \<and> files w (project_root m @ g) = Some c
              \<and> project_root m @ g \<notin> unreadable w \<and> re_search False ts_pattern c
              \<and> project_root m @ g \<notin> unwritable w)"
    by (rule update_typescript_version_flag)
next
  assume "\<forall>g\<in>set ts_files. \<not> path_exists (project_root m @ g) w"
  then show "update_typescript_version m w = (Inr False, w\<lparr>out := out w @ map TsNotFound ts_files\<rparr>)"
    unfolding update_typescript_version_def by (rule ts_loop_all_missing)
next
  obtain b w1 f w2 t w3 h w4 where
    s: "update_all_components m w =
         (Inr [(''backend'', b), (''frontend_package'', f), (''typescript'', t), (''version_header'', h)], w4)"
    using update_all_components_steps [of m w] by blast
  have "\<forall>p. path_exists p w4 \<longrightarrow>
              path_exists p w \<or> p = project_root m @ [''frontend'', ''src'', ''version.ts'']"
    using update_all_components_dom [of m w] s by (auto simp: path_exists_def)
  with s show "\<exists>flags w'. update_all_components m w = (Inr flags, w')
        \<and> map fst flags = [''backend'', ''frontend_package'', ''typescript'', ''version_header'']
        \<and> (\<forall>p. path_exists p w' \<longrightarrow>
              path_exists p w \<or> p = project_root m @ [''frontend'', ''src'', ''version.ts''])"
    by simp
qed (simp_all add: update_backend_version_def update_frontend_version_def ts_pass_def say_out)

theorem missing_target_reported_not_created_witness:
  "\<not> path_exists [''backend'', ''Cargo.toml''] \<lparr>files = Map.empty, unreadable = {}, unwritable = {}, out = []\<rparr>
   \<and> \<not> path_exists [''frontend'', ''src'', ''services'', ''AutoUpdater.ts'']
         \<lparr>files = Map.empty, unreadable = {}, unwritable = {}, out = []\<rparr>
   \<and> \<not> path_exists [''frontend'', ''src'', ''services'', ''BackendService.ts'']
         \<lparr>files = Map.empty, unreadable = {}, unwritable = {}, out = []\<rparr>
   \<and> update_backend_version \<lparr>project_root = [], version_file = [''VERSION''], version = ''2.1.0''\<rparr>
        \<lparr>files = Map.empty, unreadable = {}, unwritable = {}, out = []\<rparr>
      = (Inr False, \<lparr>files = Map.empty, unreadable = {}, unwritable = {},
                     out = [BackendNotFound [''backend'', ''Cargo.toml'']]\<rparr>)
   \<and> update_frontend_version \<lparr>project_root = [], version_file = [''VERSION''], version = ''2.1.0''\<rparr>
        \<lparr>files = Map.empty, unreadable = {}, unwritable = {}, out = []\<rparr>
      = (Inr False, \<lparr>files = Map.empty, unreadable = {}, unwritable = {},
                     out = [FrontendNotFound [''frontend'', ''package.json'']]\<rparr>)
   \<and> update_typescript_version \<lparr>project_root = [], version_file = [''VERSION''], version = ''2.1.0''\<rparr>
        \<lparr>files = Map.empty, unreadable = {}, unwritable = {}, out = []\<rparr>
      = (Inr False, \<lparr>files = Map.empty, unreadable = {}, unwritable = {},
                     out = [TsNotFound [''frontend'', ''src'', ''services'', ''AutoUpdater.ts''],
                            TsNotFound [''frontend'', ''src'', ''services'', ''BackendService.ts'']]\<rparr>)"
proof -
  let ?m = "\<lparr>project_root = [], version_file = [''VERSION''], version = ''2.1.0''\<rparr>"
  let ?u = "\<lparr>files = Map.empty, unreadable = {}, unwritable = {}, out = []\<rparr>"
  have n: "\<not> path_exists p ?u" for p by (simp add: path_exists_def)
  show ?thesis
    using n missing_target_reported_not_created [of ?m ?u]
    by (simp add: ts_files_def)
qed

section \<open>I/O failures inside a step\<close>





section \<open>The declarations file\<close>

text \<open>
  C10: the text that \<open>create_version_header\<close> writes is the version between fixed literals,
  the build date being the JavaScript expression \<open>new Date().toISOString()\<close> and not a
  date: whenever the file can be opened for writing, the step stores exactly
  \<open>header_content\<close> of the version, so two runs with the same version, in any two worlds
  where they succeed, leave the same text.
\<close>

theorem create_version_header_deterministic:
  "header_content v =
     ''// Auto-generated version file - DO NOT EDIT MANUALLY'' @ [nl] @
     ''// This file is updated automatically by the version manager'' @ [nl] @
     [nl] @
     ''export const APP_VERSION = '' @ [sq] @ v @ [sq] @ '';'' @ [nl] @
     ''export const APP_NAME = '' @ [sq] @ ''Unified Data Studio v2'' @ [sq] @ '';'' @ [nl] @
     [nl] @
     ''// Version information for components'' @ [nl] @
     ''export const VERSION_INFO = {'' @ [nl] @
     ''  version: '' @ [sq] @ v @ [sq] @ '','' @ [nl] @
     ''  name: '' @ [sq] @ ''Unified Data Studio v2'' @ [sq] @ '','' @ [nl] @
     ''  buildDate: new Date().toISOString(),'' @ [nl] @
     ''  environment: process.env.NODE_ENV || '' @ [sq] @ ''development'' @ [sq] @ [nl] @
     ''};'' @ [nl] @
     [nl] @
     ''export default APP_VERSION;'' @ [nl]
   \<and> (project_root m @ [''frontend'', ''src'', ''version.ts''] \<notin> unwritable w \<longrightarrow>
        create_version_header m w =
          (Inr True,
           w\<lparr>files := (files w)(project_root m @ [''frontend'', ''src'', ''version.ts'']
                          \<mapsto> header_content (version m)),
             out := out w @ [HeaderCreated (project_root m @ [''frontend'', ''src'', ''version.ts''])]\<rparr>))
   \<and> (version m = version m' \<and> create_version_header m w = (Inr True, w1)
        \<and> create_version_header m' w' = (Inr True, w1') \<longrightarrow>
        files w1 (project_root m @ [''frontend'', ''src'', ''version.ts''])
          = files w1' (project_root m' @ [''frontend'', ''src'', ''version.ts''])
        \<and> files w1 (project_root m @ [''frontend'', ''src'', ''version.ts''])
          = Some (header_content (version m)))"
proof (intro conjI impI)
  show "header_content v =
     ''// Auto-generated version file - DO NOT EDIT MANUALLY'' @ [nl] @
     ''// This file is updated automatically by the version manager'' @ [nl] @
     [nl] @
     ''export const APP_VERSION = '' @ [sq] @ v @ [sq] @ '';'' @ [nl] @
     ''export const APP_NAME = '' @ [sq] @ ''Unified Data Studio v2'' @ [sq] @ '';'' @ [nl] @
     [nl] @
     ''// Version information for components'' @ [nl] @
     ''export const VERSION_INFO = {'' @ [nl] @
     ''  version: '' @ [sq] @ v @ [sq] @ '','' @ [nl] @
     ''  name: '' @ [sq] @ ''Unified Data Studio v2'' @ [sq] @ '','' @ [nl] @
     ''  buildDate: new Date().toISOString(),'' @ [nl] @
     ''  environment: process.env.NODE_ENV || '' @ [sq] @ ''development'' @ [sq] @ [nl] @
     ''};'' @ [nl] @
     [nl] @
     ''export default APP_VERSION;'' @ [nl]"
    by (simp add: header_content_def)
next
  assume "project_root m @ [''frontend'', ''src'', ''version.ts''] \<notin> unwritable w"
  then show "create_version_header m w =
          (Inr True,
           w\<lparr>files := (files w)(project_root m @ [''frontend'', ''src'', ''version.ts'']
                          \<mapsto> header_content (version m)),
             out := out w @ [HeaderCreated (project_root m @ [''frontend'', ''src'', ''version.ts''])]\<rparr>)"
    by (simp add: create_version_header_cases say_def Let_def)
next
  assume h: "version m = version m' \<and> create_version_header m w = (Inr True, w1)
        \<and> create_version_header m' w' = (Inr True, w1')"
  then have 1: "files w1 (project_root m @ [''frontend'', ''src'', ''version.ts'']) = Some (header_content (version m))"
    by (auto simp: create_version_header_cases Let_def say_def split: if_splits)
  from h have 2: "files w1' (project_root m' @ [''frontend'', ''src'', ''version.ts'']) = Some (header_content (version m'))"
    by (auto simp: create_version_header_cases Let_def say_def split: if_splits)
  from 1 2 h show "files w1 (project_root m @ [''frontend'', ''src'', ''version.ts''])
          = files w1' (project_root m' @ [''frontend'', ''src'', ''version.ts''])" by simp
  from 1 show "files w1 (project_root m @ [''frontend'', ''src'', ''version.ts''])
          = Some (header_content (version m))" .
qed

theorem create_version_header_deterministic_witness:
  "[''frontend'', ''src'', ''version.ts''] \<notin> unwritable \<lparr>files = Map.empty, unreadable = {}, unwritable = {}, out = []\<rparr>
   \<and> fst (create_version_header \<lparr>project_root = [], version_file = [''VERSION''], version = ''2.1.0''\<rparr>
        \<lparr>files = Map.empty, unreadable = {}, unwritable = {}, out = []\<rparr>) = Inr True
   \<and> files (snd (create_version_header \<lparr>project_root = [], version_file = [''VERSION''], version = ''2.1.0''\<rparr>
        \<lparr>files = Map.empty, unreadable = {}, unwritable = {}, out = []\<rparr>)) [''frontend'', ''src'', ''version.ts'']
      = files (snd (create_version_header \<lparr>project_root = [], version_file = [''VERSION''], version = ''2.1.0''\<rparr>
        \<lparr>files = [[''frontend'', ''src'', ''version.ts''] \<mapsto> ''old''], unreadable = {}, unwritable = {},
          out = [UpdatingAll]\<rparr>)) [''frontend'', ''src'', ''version.ts'']"
proof -
  let ?m = "\<lparr>project_root = [], version_file = [''VERSION''], version = ''2.1.0''\<rparr>"
  let ?u = "\<lparr>files = Map.empty, unreadable = {}, unwritable = {}, out = []\<rparr>"
  let ?v = "\<lparr>files = [[''frontend'', ''src'', ''version.ts''] \<mapsto> ''old''], unreadable = {}, unwritable = {},
          out = [UpdatingAll]\<rparr>"
  have a: "fst (create_version_header ?m ?u) = Inr True"
    using create_version_header_deterministic [of _ ?m ?u] by simp
  have b: "fst (create_version_header ?m ?v) = Inr True"
    using create_version_header_deterministic [of _ ?m ?v] by simp
  have "files (snd (create_version_header ?m ?u)) [''frontend'', ''src'', ''version.ts'']
      = files (snd (create_version_header ?m ?v)) [''frontend'', ''src'', ''version.ts'']"
    using a b create_version_header_deterministic [of _ ?m ?u ?m "snd (create_version_header ?m ?u)" ?v
        "snd (create_version_header ?m ?v)"]
    by (cases "create_version_header ?m ?u"; cases "create_version_header ?m ?v") simp
  with a show ?thesis by simp
qed

section \<open>Bad arguments on the command line\<close>

lemma init_valid:
  assumes "fst (read_version [''VERSION''] w) = Inr v"
  shows "init [] w = (Inr \<lparr>project_root = [], version_file = [''VERSION''], version = v\<rparr>, w)"
  using assms read_version_world [of "[''VERSION'']" w]
  by (cases "read_version [''VERSION''] w") (simp add: init_def and_then_def)

text \<open>
  C9, as the claim states it, fails: with a valid canonical file, \<open>bump\<close> without a type,
  \<open>bump\<close> with an unknown type and an unknown command all print their report and return,
  and the exit status is 0.
\<close>

theorem main_bad_arguments_exit_zero:
  "main [''version_manager.py'', ''bump'']
     \<lparr>files = [[''VERSION''] \<mapsto> ''1.2.3''], unreadable = {}, unwritable = {}, out = []\<rparr>
     = (0, \<lparr>files = [[''VERSION''] \<mapsto> ''1.2.3''], unreadable = {}, unwritable = {},
              out = [SpecifyBumpType]\<rparr>)
   \<and> main [''version_manager.py'', ''bump'', ''bogus'']
     \<lparr>files = [[''VERSION''] \<mapsto> ''1.2.3''], unreadable = {}, unwritable = {}, out = []\<rparr>
     = (0, \<lparr>files = [[''VERSION''] \<mapsto> ''1.2.3''], unreadable = {}, unwritable = {},
              out = [InvalidBumpTypeUse]\<rparr>)
   \<and> main [''version_manager.py'', ''frobnicate'']
     \<lparr>files = [[''VERSION''] \<mapsto> ''1.2.3''], unreadable = {}, unwritable = {}, out = []\<rparr>
     = (0, \<lparr>files = [[''VERSION''] \<mapsto> ''1.2.3''], unreadable = {}, unwritable = {},
              out = [UnknownCommand ''frobnicate'', UseCommands]\<rparr>)"
proof -
  have "parse_version (strip ''1.2.3'') \<noteq> None"
    by (simp add: strip_def is_space_def parse_version_def all_digits_def is_digit_def)
  then have "re_match False version_pattern (strip ''1.2.3'')"
    unfolding re_match_strip .
  moreover have "strip ''1.2.3'' = ''1.2.3''" by (simp add: strip_def is_space_def)
  ultimately have "fst (read_version [''VERSION'']
      \<lparr>files = [[''VERSION''] \<mapsto> ''1.2.3''], unreadable = {}, unwritable = {}, out = []\<rparr>) = Inr ''1.2.3''"
    by (simp add: read_version_def path_exists_def open_read_def Let_def)
  from init_valid [OF this] show ?thesis
    by (simp add: main_def main_try_def say_def)
qed

text \<open>
  C9, amended: with a valid canonical file, \<open>bump\<close> without a type, \<open>bump\<close> with a type other
  than \<open>major\<close>, \<open>minor\<close> and \<open>patch\<close>, and a command that is none of the four, make \<open>main\<close>
  print its report and return with status 0, the world otherwise as it was: nothing is
  bumped and nothing propagated.
\<close>

theorem main_bad_arguments_report_only:
  assumes "fst (read_version [''VERSION''] w) = Inr v"
  shows "main [prog, ''bump''] w = (0, w\<lparr>out := out w @ [SpecifyBumpType]\<rparr>)
       \<and> (bump_type \<notin> {''major'', ''minor'', ''patch''} \<longrightarrow>
            main (prog # ''bump'' # bump_type # rest) w = (0, w\<lparr>out := out w @ [InvalidBumpTypeUse]\<rparr>))
       \<and> (command \<notin> {''update-all'', ''bump'', ''info'', ''create-header''} \<longrightarrow>
            main (prog # command # rest) w
              = (0, w\<lparr>out := out w @ [UnknownCommand command, UseCommands]\<rparr>))"
  using init_valid [OF assms]
  by (simp add: main_def main_try_def say_def)

theorem main_bad_arguments_report_only_witness:
  "fst (read_version [''VERSION'']
      \<lparr>files = [[''VERSION''] \<mapsto> ''1.2.3''], unreadable = {}, unwritable = {}, out = []\<rparr>) = Inr ''1.2.3''
   \<and> ''bogus'' \<notin> {''major'', ''minor'', ''patch''}
   \<and> ''frobnicate'' \<notin> {''update-all'', ''bump'', ''info'', ''create-header''}
   \<and> fst (main [''version_manager.py'', ''bump'', ''bogus'']
       \<lparr>files = [[''VERSION''] \<mapsto> ''1.2.3''], unreadable = {}, unwritable = {}, out = []\<rparr>) = 0
   \<and> files (snd (main [''version_manager.py'', ''frobnicate'', ''x'']
       \<lparr>files = [[''VERSION''] \<mapsto> ''1.2.3''], unreadable = {}, unwritable = {}, out = []\<rparr>))
      = [[''VERSION''] \<mapsto> ''1.2.3'']"
proof -
  let ?u = "\<lparr>files = [[''VERSION''] \<mapsto> ''1.2.3''], unreadable = {}, unwritable = {}, out = []\<rparr>"
  have "parse_version (strip ''1.2.3'') \<noteq> None"
    by (simp add: strip_def is_space_def parse_version_def all_digits_def is_digit_def)
  then have "re_match False version_pattern (strip ''1.2.3'')"
    unfolding re_match_strip .
  moreover have "strip ''1.2.3'' = ''1.2.3''" by (simp add: strip_def is_space_def)
  ultimately have r: "fst (read_version [''VERSION''] ?u) = Inr ''1.2.3''"
    by (simp add: read_version_def path_exists_def open_read_def Let_def)
  show ?thesis
    using r main_bad_arguments_report_only [OF r, of "''version_manager.py''" "''bogus''" "[]" "''frobnicate''"]
      main_bad_arguments_report_only [OF r, of "''version_manager.py''" "''bogus''" "[''x'']" "''frobnicate''"]
    by simp
qed


section \<open>Substituting twice\<close>

text \<open>
  A replacement line matches its own pattern, and a substitution makes no new match in
  the text it leaves in place; so substituting in a substituted text changes nothing.
\<close>

lemma match_suffix:
  "match_items ml its p s = Some (p', r) \<Longrightarrow> \<exists>u. s = u @ r"
proof (induction ml its p s arbitrary: p' r rule: match_items.induct)
  case (5 ml c its prev x xs)
  then show ?case by (auto split: if_splits intro: Cons_eq_appendI)
next
  case (7 ml P its prev x xs)
  then show ?case by (auto split: if_splits option.splits intro: Cons_eq_appendI)
next
  case (9 ml P its prev x xs)
  then show ?case by (auto split: if_splits intro: Cons_eq_appendI)
qed (auto split: if_splits)

lemma match_prev_indep:
  "Caret \<notin> set its \<Longrightarrow>
     map_option snd (match_items ml its p1 s) = map_option snd (match_items ml its p2 s)"
proof (induction ml its p1 s arbitrary: p2 rule: match_items.induct)
  case (7 ml P its prev x xs)
  from "7.prems" have nc: "Caret \<notin> set its" by simp
  show ?case
  proof (cases "P x")
    case True
    have a: "map_option snd (match_items ml (Star P # its) (Some x) xs) =
             map_option snd (match_items ml (Star P # its) (Some x) xs)" by simp
    show ?thesis
    proof (cases "match_items ml (Star P # its) (Some x) xs")
      case None
      from "7.IH"(2) [OF True None nc, of p2] None True show ?thesis by simp
    next
      case (Some a)
      with True show ?thesis by simp
    qed
  next
    case False
    from "7.IH"(3) [OF False nc, of p2] False show ?thesis by simp
  qed
next
  case (1 ml prev s)
  show ?case by simp
next
  case (2 ml its prev s)
  then show ?case by simp
next
  case (3 ml its prev s)
  from "3.prems" have nc: "Caret \<notin> set its" by simp
  show ?case
  proof (cases "case s of [] \<Rightarrow> True | c # cs \<Rightarrow> c = nl \<and> (ml \<or> cs = [])")
    case True
    from "3.IH" [OF True nc, of p2] True show ?thesis by simp
  next
    case False
    then show ?thesis by simp
  qed
next
  case (4 ml c its prev)
  show ?case by simp
next
  case (5 ml c its prev x xs)
  show ?case by simp
next
  case (6 ml P its prev)
  from "6.prems" have nc: "Caret \<notin> set its" by simp
  from "6.IH" [OF nc, of p2] show ?case by simp
next
  case (8 ml P its prev)
  show ?case by simp
next
  case (9 ml P its prev x xs)
  show ?case by simp
qed

lemma match_none_prev_indep:
  "Caret \<notin> set its \<Longrightarrow> (match_items ml its p1 s = None) = (match_items ml its p2 s = None)"
  using match_prev_indep [of its ml p1 s p2]
  by (cases "match_items ml its p1 s"; cases "match_items ml its p2 s") simp_all

lemma match_last_chr:
  "match_items ml pat p s = Some (p', r) \<Longrightarrow> pat \<noteq> [] \<Longrightarrow> last pat = Chr c \<Longrightarrow> p' = Some c"
proof (induction ml pat p s arbitrary: p' r rule: match_items.induct)
  case (5 ml c' its prev x xs)
  then show ?case by (cases "its = []") (auto split: if_splits)
next
  case (7 ml P its prev x xs)
  then show ?case by (cases "its = []") (auto split: if_splits option.splits)
next
  case (9 ml P its prev x xs)
  then show ?case by (auto split: if_splits)
qed (auto split: if_splits)

lemma headedD: "headed ml pat c0 \<Longrightarrow> match_items ml pat p s \<noteq> None \<Longrightarrow> \<exists>t. s = c0 # t"
  unfolding headed_def by blast

lemma sub_from_nil:
  assumes "headed ml pat c0"
  shows "sub_from ml pat repl p [] = []"
proof -
  have "match_items ml pat p [] = None"
    using headedD [OF assms, of p "[]"] by (cases "match_items ml pat p []") auto
  then show ?thesis by simp
qed

lemma sub_from_pass:
  assumes "headed ml pat c0"
    and "x \<noteq> c0"
  shows "sub_from ml pat repl p (x # xs) = x # sub_from ml pat repl (Some x) xs"
proof -
  have "match_items ml pat p (x # xs) = None"
    using headedD [OF assms(1), of p "x # xs"] assms(2) by (cases "match_items ml pat p (x # xs)") auto
  then show ?thesis by simp
qed

lemma sub_from_no_match:
  "match_items ml pat p (x # xs) = None \<Longrightarrow>
     sub_from ml pat repl p (x # xs) = x # sub_from ml pat repl (Some x) xs"
  by simp

lemma sub_from_match:
  "match_items ml pat p (x # xs) = Some (p', r) \<Longrightarrow>
     \<exists>t. sub_from ml pat repl p (x # xs) = repl @ t"
  by (simp split: if_splits)

lemma sub_from_hd:
  assumes "headed ml pat c0"
    and "repl = c0 # rt"
  shows "\<exists>t'. sub_from ml pat repl p (x # xs) = x # t'"
proof (cases "match_items ml pat p (x # xs)")
  case None
  then show ?thesis by simp
next
  case (Some a)
  then have "x = c0" using headedD [OF assms(1), of p "x # xs"] by auto
  moreover obtain t where "sub_from ml pat repl p (x # xs) = repl @ t"
    using sub_from_match [of ml pat p x xs "fst a" "snd a" repl] Some by auto
  ultimately show ?thesis using assms(2) by simp
qed

lemma keeps_match_Nil: "keeps_match ml pat repl []"
  by (simp add: keeps_match_def)

lemma keeps_match_Chr:
  assumes h: "headed ml pat c0"
    and r: "repl = c0 # rt"
    and x: "x \<noteq> c0"
    and k: "keeps_match ml pat repl its"
  shows "keeps_match ml pat repl (Chr x # its)"
  unfolding keeps_match_def
proof (intro allI impI)
  fix p t p1 p2
  assume m: "match_items ml (Chr x # its) p1 (sub_from ml pat repl p t) \<noteq> None"
  show "match_items ml (Chr x # its) p2 t \<noteq> None"
  proof (cases t)
    case Nil
    have "sub_from ml pat repl p [] = []" by (rule sub_from_nil [OF h])
    with m Nil show ?thesis by (simp del: sub_from.simps)
  next
    case (Cons y ys)
    obtain t' where t': "sub_from ml pat repl p (y # ys) = y # t'"
      using sub_from_hd [OF h r] by blast
    with m Cons have yx: "y = x" by (auto simp del: sub_from.simps split: if_splits)
    with x have "sub_from ml pat repl p (y # ys) = y # sub_from ml pat repl (Some y) ys"
      by (intro sub_from_pass [OF h]) simp
    with m Cons yx have "match_items ml its (Some x) (sub_from ml pat repl (Some y) ys) \<noteq> None"
      by (simp del: sub_from.simps)
    with k have "match_items ml its (Some x) ys \<noteq> None"
      unfolding keeps_match_def by blast
    with Cons yx show ?thesis by simp
  qed
qed

lemma keeps_match_Star:
  assumes h: "headed ml pat c0"
    and r: "repl = c0 # rt"
    and x: "\<And>x. P x \<Longrightarrow> x \<noteq> c0"
    and k: "keeps_match ml pat repl its"
  shows "keeps_match ml pat repl (Star P # its)"
proof -
  have "match_items ml (Star P # its) p1 (sub_from ml pat repl p t) \<noteq> None \<Longrightarrow>
        match_items ml (Star P # its) p2 t \<noteq> None" for t p p1 p2
  proof (induction t arbitrary: p p1 p2)
    case Nil
    have e: "sub_from ml pat repl p [] = []" by (rule sub_from_nil [OF h])
    from Nil have "match_items ml its p1 (sub_from ml pat repl p []) \<noteq> None"
      unfolding e by simp
    with k have "match_items ml its p2 [] \<noteq> None"
      unfolding keeps_match_def by blast
    then show ?case by simp
  next
    case (Cons y ys)
    obtain t' where t': "sub_from ml pat repl p (y # ys) = y # t'"
      using sub_from_hd [OF h r] by blast
    show ?case
    proof (cases "P y")
      case True
      then have "y \<noteq> c0" by (rule x)
      then have s: "sub_from ml pat repl p (y # ys) = y # sub_from ml pat repl (Some y) ys"
        by (rule sub_from_pass [OF h])
      show ?thesis
      proof (cases "match_items ml (Star P # its) (Some y) (sub_from ml pat repl (Some y) ys)")
        case None
        with Cons.prems s True
        have "match_items ml its p1 (sub_from ml pat repl p (y # ys)) \<noteq> None"
          by (simp del: sub_from.simps)
        with k have "match_items ml its p2 (y # ys) \<noteq> None"
          unfolding keeps_match_def by blast
        with True show ?thesis by (simp split: option.splits)
      next
        case (Some a)
        then have "match_items ml (Star P # its) (Some y) ys \<noteq> None"
          using Cons.IH [of "Some y" "Some y" "Some y"] by (simp del: sub_from.simps)
        with True show ?thesis by (auto split: option.splits)
      qed
    next
      case False
      with Cons.prems t' have "match_items ml its p1 (sub_from ml pat repl p (y # ys)) \<noteq> None"
        by (simp del: sub_from.simps)
      with k have "match_items ml its p2 (y # ys) \<noteq> None"
        unfolding keeps_match_def by blast
      with False show ?thesis by simp
    qed
  qed
  then show ?thesis unfolding keeps_match_def by blast
qed

lemma star_not_dq:
  "(match_items ml [Star not_dq, Chr dq] p s \<noteq> None) = (dq \<in> set s)"
proof -
  have n: "\<not> not_dq dq" by (simp add: not_dq_def)
  have e: "match_items ml [Star not_dq, Chr dq] p s =
     (case dropWhile not_dq s of [] \<Rightarrow> None
      | x # xs \<Rightarrow> if x = dq then Some (Some x, xs) else None)"
  proof -
    have "(case l of [] \<Rightarrow> None
           | x # xs \<Rightarrow> if x = dq then match_items ml [] (Some x) xs else None) =
          (case l of [] \<Rightarrow> None
           | x # xs \<Rightarrow> if x = dq then Some (Some x, xs) else None)" for l :: string
      by (cases l) simp_all
    then show ?thesis
      unfolding star_chr [where P = not_dq and c = dq, OF n] .
  qed
  show ?thesis
  proof (cases "dropWhile not_dq s")
    case Nil
    then have "dq \<notin> set s" by (auto simp: not_dq_def)
    then show ?thesis unfolding e Nil by simp
  next
    case (Cons x xs)
    then have "dropWhile not_dq s \<noteq> []" by simp
    from hd_dropWhile [OF this] Cons have x: "x = dq" by (simp add: not_dq_def)
    have "x \<in> set (dropWhile not_dq s)" using Cons by simp
    then have "dq \<in> set s" using x set_dropWhileD by fastforce
    then show ?thesis unfolding e Cons using x by simp
  qed
qed

lemma sub_from_keeps_char:
  assumes "\<forall>p s. match_items ml pat p s \<noteq> None \<longrightarrow> c \<in> set s"
  shows "c \<in> set (sub_from ml pat repl p t) \<Longrightarrow> c \<in> set t"
proof (induction t arbitrary: p)
  case Nil
  from assms have "match_items ml pat p [] \<noteq> None \<longrightarrow> c \<in> set []" by blast
  then have "match_items ml pat p [] = None" by (cases "match_items ml pat p []") auto
  with Nil show ?case by simp
next
  case (Cons x xs)
  show ?case
  proof (cases "match_items ml pat p (x # xs)")
    case None
    with Cons.prems have "c = x \<or> c \<in> set (sub_from ml pat repl (Some x) xs)" by auto
    with Cons.IH show ?thesis by auto
  next
    case (Some a)
    with assms show ?thesis by blast
  qed
qed

lemma keeps_match_close:
  assumes "\<forall>p s. match_items ml pat p s \<noteq> None \<longrightarrow> dq \<in> set s"
  shows "keeps_match ml pat repl [Star not_dq, Chr dq]"
  unfolding keeps_match_def star_not_dq
  using sub_from_keeps_char [OF assms] by blast

lemma keeps_match_head_Chr:
  assumes h: "\<forall>p s. match_items ml pat p s \<noteq> None \<longrightarrow> (\<exists>t. s = c0 # c1 # t)"
    and r: "repl = c0 # c1 # rt"
    and y: "y \<noteq> c1"
    and k: "keeps_match ml pat repl (Chr y # its)"
  shows "keeps_match ml pat repl (Chr c0 # Chr y # its)"
  unfolding keeps_match_def
proof (intro allI impI)
  fix p t p1 p2
  assume m: "match_items ml (Chr c0 # Chr y # its) p1 (sub_from ml pat repl p t) \<noteq> None"
  show "match_items ml (Chr c0 # Chr y # its) p2 t \<noteq> None"
  proof (cases t)
    case Nil
    from h have "match_items ml pat p [] \<noteq> None \<longrightarrow> (\<exists>t. [] = c0 # c1 # t)" by blast
    then have "match_items ml pat p [] = None" by (cases "match_items ml pat p []") auto
    with m Nil show ?thesis by simp
  next
    case (Cons z zs)
    show ?thesis
    proof (cases "match_items ml pat p (z # zs)")
      case None
      with m Cons have z: "z = c0"
        and "match_items ml (Chr y # its) (Some c0) (sub_from ml pat repl (Some z) zs) \<noteq> None"
        by (auto split: if_splits)
      with k have "match_items ml (Chr y # its) (Some c0) zs \<noteq> None"
        unfolding keeps_match_def by blast
      with Cons z show ?thesis by simp
    next
      case (Some a)
      then obtain tt where "sub_from ml pat repl p (z # zs) = repl @ tt"
        using sub_from_match [of ml pat p z zs "fst a" "snd a" repl] by auto
      with m Cons r y show ?thesis by (simp del: sub_from.simps)
    qed
  qed
qed

lemma keeps_match_open:
  assumes h: "headed ml pat dq"
    and d: "\<forall>p s. match_items ml pat p s \<noteq> None \<longrightarrow> dq \<in> set s"
    and d2: "\<forall>p x xs. match_items ml pat p (x # xs) \<noteq> None \<longrightarrow> dq \<in> set xs"
  shows "keeps_match ml pat repl [Chr dq, Star not_dq, Chr dq]"
  unfolding keeps_match_def
proof (intro allI impI)
  fix p t p1 p2
  assume m: "match_items ml [Chr dq, Star not_dq, Chr dq] p1 (sub_from ml pat repl p t) \<noteq> None"
  show "match_items ml [Chr dq, Star not_dq, Chr dq] p2 t \<noteq> None"
  proof (cases t)
    case Nil
    have "sub_from ml pat repl p [] = []" by (rule sub_from_nil [OF h])
    with m Nil show ?thesis by (simp del: sub_from.simps)
  next
    case (Cons z zs)
    show ?thesis
    proof (cases "match_items ml pat p (z # zs)")
      case None
      with m Cons have z: "z = dq"
        and "match_items ml [Star not_dq, Chr dq] (Some dq) (sub_from ml pat repl (Some z) zs) \<noteq> None"
        by (auto split: if_splits)
      then have "dq \<in> set (sub_from ml pat repl (Some z) zs)"
        unfolding star_not_dq by simp
      then have "dq \<in> set zs" by (rule sub_from_keeps_char [OF d])
      then have "match_items ml [Star not_dq, Chr dq] (Some dq) zs \<noteq> None"
        unfolding star_not_dq .
      with Cons z show ?thesis by simp
    next
      case (Some a)
      then have z: "z = dq" using headedD [OF h, of p "z # zs"] by auto
      from Some d2 have "dq \<in> set zs" by blast
      then have "match_items ml [Star not_dq, Chr dq] (Some dq) zs \<noteq> None"
        unfolding star_not_dq .
      with Cons z show ?thesis by simp
    qed
  qed
qed

lemma sub_from_idem:
  assumes h: "headed ml pat c0"
    and i1: "\<forall>p c cs. match_items ml pat p (c # cs) = None \<longrightarrow>
               match_items ml pat p (c # sub_from ml pat repl (Some c) cs) = None"
    and i2: "\<forall>p s p' r X. match_items ml pat p s = Some (p', r) \<longrightarrow>
               sub_from ml pat repl p (repl @ X) = repl @ sub_from ml pat repl p' X"
    and ne: "\<forall>p s p' r. match_items ml pat p s = Some (p', r) \<longrightarrow> length r < length s"
  shows "sub_from ml pat repl p (sub_from ml pat repl p s) = sub_from ml pat repl p s"
proof (induction s arbitrary: p rule: length_induct)
  case (1 s)
  show ?case
  proof (cases s)
    case Nil
    have "sub_from ml pat repl p [] = []" by (rule sub_from_nil [OF h])
    with Nil show ?thesis by (simp del: sub_from.simps)
  next
    case (Cons x xs)
    show ?thesis
    proof (cases "match_items ml pat p (x # xs)")
      case None
      let ?T = "sub_from ml pat repl (Some x) xs"
      have s: "sub_from ml pat repl p (x # xs) = x # ?T" using None by simp
      from i1 None have "match_items ml pat p (x # ?T) = None" by blast
      then have "sub_from ml pat repl p (x # ?T) = x # sub_from ml pat repl (Some x) ?T"
        by (rule sub_from_no_match)
      moreover have "sub_from ml pat repl (Some x) ?T = ?T"
        using 1 Cons by simp
      ultimately show ?thesis using s Cons by (simp del: sub_from.simps)
    next
      case (Some a)
      obtain p' r where a: "a = (p', r)" by (cases a)
      with Some ne have l: "length r < length (x # xs)" by blast
      with Some a have s: "sub_from ml pat repl p (x # xs) = repl @ sub_from ml pat repl p' r"
        by simp
      from i2 Some a have "sub_from ml pat repl p (repl @ sub_from ml pat repl p' r) =
          repl @ sub_from ml pat repl p' (sub_from ml pat repl p' r)" by blast
      moreover have "sub_from ml pat repl p' (sub_from ml pat repl p' r) = sub_from ml pat repl p' r"
        using 1 l Cons by simp
      ultimately show ?thesis using s Cons by (simp del: sub_from.simps)
    qed
  qed
qed

lemma match_length_le:
  "match_items ml pat p s = Some (p', r) \<Longrightarrow> length r \<le> length s"
  using match_suffix [of ml pat p s p' r] by auto

lemma match_has_chr:
  "match_items ml pat p s = Some (p', r) \<Longrightarrow> Chr c \<in> set pat \<Longrightarrow> c \<in> set s \<and> length r < length s"
proof (induction ml pat p s arbitrary: p' r rule: match_items.induct)
  case (5 ml c' its prev x xs)
  show ?case
  proof (cases "c' = c")
    case True
    with 5 match_length_le [of ml its "Some x" xs p' r] show ?thesis
      by (auto split: if_splits)
  next
    case False
    with 5 show ?thesis by (auto split: if_splits)
  qed
next
  case (7 ml P its prev x xs)
  then show ?case by (auto split: if_splits option.splits)
next
  case (9 ml P its prev x xs)
  then show ?case by (auto split: if_splits)
qed (auto split: if_splits)

lemma version_chars:
  assumes "parse_version v \<noteq> None"
  shows "\<forall>c\<in>set v. is_digit c \<or> c = CHR ''.''"
proof -
  from assms obtain a b c where d: "all_digits a" "all_digits b" "all_digits c"
    and v: "v = a @ ''.'' @ b @ ''.'' @ c"
    unfolding parse_version_iff by blast
  from d have "\<forall>x\<in>set a \<union> set b \<union> set c. is_digit x"
    unfolding all_digits_def list_all_iff by blast
  then show ?thesis unfolding v by auto
qed

lemma version_no_quote:
  assumes "parse_version v \<noteq> None"
  shows "dq \<notin> set v" "sq \<notin> set v" "CHR ''r'' \<notin> set v"
proof -
  have n: "\<not> (is_digit dq \<or> dq = CHR ''.'')" "\<not> (is_digit sq \<or> sq = CHR ''.'')"
    "\<not> (is_digit CHR ''r'' \<or> CHR ''r'' = CHR ''.'')"
    by (simp_all add: is_digit_def dq_def sq_def)
  from version_chars [OF assms] n show "dq \<notin> set v" "sq \<notin> set v" "CHR ''r'' \<notin> set v"
    by blast+
qed

lemma star_not_dq_app:
  "dq \<notin> set v \<Longrightarrow> match_items ml [Star not_dq, Chr dq] p (v @ dq # X) = Some (Some dq, X)"
proof -
  assume a: "dq \<notin> set v"
  have n: "\<not> not_dq dq" by (simp add: not_dq_def)
  from a have "\<And>x. x \<in> set v \<Longrightarrow> not_dq x"
    unfolding not_dq_def by blast
  then have "dropWhile not_dq (v @ dq # X) = dropWhile not_dq (dq # X)"
    by (rule dropWhile_append2)
  then have "dropWhile not_dq (v @ dq # X) = dq # X"
    by (simp add: not_dq_def)
  then show ?thesis
    unfolding star_chr [where P = not_dq and c = dq, OF n] by simp
qed

lemma backend_headed: "headed True backend_pattern CHR ''v''"
  unfolding headed_def backend_pattern_def
proof (intro allI impI)
  fix p s
  assume "match_items True (Caret # map Chr ''version'' @
     [Star is_space, Chr CHR ''='', Star is_space, Chr dq, Star not_dq, Chr dq]) p s \<noteq> None"
  then show "\<exists>t. s = CHR ''v'' # t"
    by (cases s) (auto split: if_splits)
qed

lemma backend_has_dq:
  "\<forall>p s. match_items True backend_pattern p s \<noteq> None \<longrightarrow> dq \<in> set s"
proof (intro allI impI)
  fix p s
  assume "match_items True backend_pattern p s \<noteq> None"
  then obtain p' r where "match_items True backend_pattern p s = Some (p', r)" by auto
  from match_has_chr [OF this, of dq] show "dq \<in> set s"
    by (simp add: backend_pattern_def)
qed

lemma backend_nonempty:
  "\<forall>p s p' r. match_items True backend_pattern p s = Some (p', r) \<longrightarrow> length r < length s"
proof (intro allI impI)
  fix p s p' r
  assume "match_items True backend_pattern p s = Some (p', r)"
  from match_has_chr [OF this, of dq] show "length r < length s"
    by (simp add: backend_pattern_def)
qed

lemma backend_last:
  "match_items True backend_pattern p s = Some (p', r) \<Longrightarrow> p' = Some dq"
  by (erule match_last_chr) (simp_all add: backend_pattern_def)

lemma space_not_v: "is_space x \<Longrightarrow> x \<noteq> CHR ''v''"
  by (auto simp: is_space_def)

lemma backend_keeps_tail:
  "keeps_match True backend_pattern (backend_line v)
     (map Chr ''ersion'' @ [Star is_space, Chr CHR ''='', Star is_space, Chr dq, Star not_dq, Chr dq])"
proof -
  note h = backend_headed
  have r: "backend_line v = CHR ''v'' # (''ersion = '' @ [dq] @ v @ [dq])"
    by (simp add: backend_line_def)
  note c = keeps_match_Chr [OF h r]
  note s = keeps_match_Star [OF h r, where P = is_space, OF space_not_v]
  have k0: "keeps_match True backend_pattern (backend_line v) [Star not_dq, Chr dq]"
    by (rule keeps_match_close [OF backend_has_dq])
  have k1: "keeps_match True backend_pattern (backend_line v) [Chr dq, Star not_dq, Chr dq]"
    by (rule c [OF _ k0]) (simp add: dq_def)
  have k2: "keeps_match True backend_pattern (backend_line v) [Star is_space, Chr dq, Star not_dq, Chr dq]"
    by (rule s [OF _ k1])
  have k3: "keeps_match True backend_pattern (backend_line v)
     [Chr CHR ''='', Star is_space, Chr dq, Star not_dq, Chr dq]"
    by (rule c [OF _ k2]) simp
  have k4: "keeps_match True backend_pattern (backend_line v)
     [Star is_space, Chr CHR ''='', Star is_space, Chr dq, Star not_dq, Chr dq]"
    by (rule s [OF _ k3])
  have k5: "keeps_match True backend_pattern (backend_line v)
     (Chr CHR ''n'' # [Star is_space, Chr CHR ''='', Star is_space, Chr dq, Star not_dq, Chr dq])"
    by (rule c [OF _ k4]) simp
  have k6: "keeps_match True backend_pattern (backend_line v)
     (Chr CHR ''o'' # Chr CHR ''n'' # [Star is_space, Chr CHR ''='', Star is_space, Chr dq, Star not_dq, Chr dq])"
    by (rule c [OF _ k5]) simp
  have k7: "keeps_match True backend_pattern (backend_line v)
     (Chr CHR ''i'' # Chr CHR ''o'' # Chr CHR ''n'' # [Star is_space, Chr CHR ''='', Star is_space, Chr dq, Star not_dq, Chr dq])"
    by (rule c [OF _ k6]) simp
  have k8: "keeps_match True backend_pattern (backend_line v)
     (Chr CHR ''s'' # Chr CHR ''i'' # Chr CHR ''o'' # Chr CHR ''n'' # [Star is_space, Chr CHR ''='', Star is_space, Chr dq, Star not_dq, Chr dq])"
    by (rule c [OF _ k7]) simp
  have k9: "keeps_match True backend_pattern (backend_line v)
     (Chr CHR ''r'' # Chr CHR ''s'' # Chr CHR ''i'' # Chr CHR ''o'' # Chr CHR ''n'' # [Star is_space, Chr CHR ''='', Star is_space, Chr dq, Star not_dq, Chr dq])"
    by (rule c [OF _ k8]) simp
  have k10: "keeps_match True backend_pattern (backend_line v)
     (Chr CHR ''e'' # Chr CHR ''r'' # Chr CHR ''s'' # Chr CHR ''i'' # Chr CHR ''o'' # Chr CHR ''n'' # [Star is_space, Chr CHR ''='', Star is_space, Chr dq, Star not_dq, Chr dq])"
    by (rule c [OF _ k9]) simp
  then show ?thesis by simp
qed

lemma backend_unfold:
  "match_items True backend_pattern p (c # X) =
     (if (p = None \<or> p = Some nl) \<and> c = CHR ''v''
      then match_items True
             (map Chr ''ersion'' @ [Star is_space, Chr CHR ''='', Star is_space, Chr dq, Star not_dq, Chr dq])
             (Some c) X
      else None)"
  by (simp add: backend_pattern_def)

lemma backend_i1:
  "\<forall>p c cs. match_items True backend_pattern p (c # cs) = None \<longrightarrow>
     match_items True backend_pattern p
       (c # sub_from True backend_pattern (backend_line v) (Some c) cs) = None"
proof (intro allI impI)
  fix p c cs
  assume n: "match_items True backend_pattern p (c # cs) = None"
  let ?tail = "map Chr ''ersion'' @ [Star is_space, Chr CHR ''='', Star is_space, Chr dq, Star not_dq, Chr dq]"
  show "match_items True backend_pattern p
       (c # sub_from True backend_pattern (backend_line v) (Some c) cs) = None"
  proof (cases "(p = None \<or> p = Some nl) \<and> c = CHR ''v''")
    case True
    with n have "match_items True ?tail (Some c) cs = None"
      unfolding backend_unfold by simp
    with backend_keeps_tail [of v]
    have "match_items True ?tail (Some c) (sub_from True backend_pattern (backend_line v) (Some c) cs) = None"
      unfolding keeps_match_def by blast
    with True show ?thesis unfolding backend_unfold by simp
  next
    case False
    then show ?thesis unfolding backend_unfold by auto
  qed
qed

lemma backend_match_line:
  assumes "dq \<notin> set v" "p = None \<or> p = Some nl"
  shows "match_items True backend_pattern p (backend_line v @ X) = Some (Some dq, X)"
proof -
  have sp: "is_space CHR '' ''" "\<not> is_space CHR ''=''" "\<not> is_space dq"
    by (simp_all add: is_space_def dq_def)
  have "match_items True [Star not_dq, Chr dq] (Some dq) (v @ dq # X) = Some (Some dq, X)"
    by (rule star_not_dq_app [OF assms(1)])
  then show ?thesis
    using assms(2) sp
    by (simp add: backend_pattern_def backend_line_def)
qed

lemma backend_i2:
  assumes "dq \<notin> set v"
  shows "\<forall>p s p' r X. match_items True backend_pattern p s = Some (p', r) \<longrightarrow>
     sub_from True backend_pattern (backend_line v) p (backend_line v @ X) =
       backend_line v @ sub_from True backend_pattern (backend_line v) p' X"
proof (intro allI impI)
  fix p s p' r X
  assume m: "match_items True backend_pattern p s = Some (p', r)"
  then have p': "p' = Some dq" by (rule backend_last)
  from m have ls: "p = None \<or> p = Some nl"
    by (cases s) (auto simp: backend_pattern_def split: if_splits)
  have e: "backend_line v @ X = CHR ''v'' # (''ersion = '' @ [dq] @ v @ [dq] @ X)"
    by (simp add: backend_line_def)
  have "match_items True backend_pattern p (CHR ''v'' # (''ersion = '' @ [dq] @ v @ [dq] @ X))
      = Some (Some dq, X)"
    using backend_match_line [OF assms ls, of X] unfolding e .
  then have "sub_from True backend_pattern (backend_line v) p
       (CHR ''v'' # (''ersion = '' @ [dq] @ v @ [dq] @ X))
     = backend_line v @ sub_from True backend_pattern (backend_line v) (Some dq) X"
    by (subst sub_from.simps(2)) simp
  then show "sub_from True backend_pattern (backend_line v) p (backend_line v @ X) =
       backend_line v @ sub_from True backend_pattern (backend_line v) p' X"
    unfolding e p' .
qed

lemma backend_sub_idem:
  assumes "dq \<notin> set v"
  shows "sub_from True backend_pattern (backend_line v) p
           (sub_from True backend_pattern (backend_line v) p s)
         = sub_from True backend_pattern (backend_line v) p s"
  by (rule sub_from_idem [OF backend_headed backend_i1 backend_i2 [OF assms] backend_nonempty])

lemma frontend_unfold:
  "match_items False frontend_pattern p (c # X) =
     (if c = dq
      then match_items False
             (map Chr ''version'' @ [Chr dq, Chr CHR '':'', Star is_space, Chr dq, Star not_dq, Chr dq])
             (Some c) X
      else None)"
  by (simp add: frontend_pattern_def)

lemma frontend_head2:
  "\<forall>p s. match_items False frontend_pattern p s \<noteq> None \<longrightarrow> (\<exists>t. s = dq # CHR ''v'' # t)"
proof (intro allI impI)
  fix p s
  assume m: "match_items False frontend_pattern p s \<noteq> None"
  show "\<exists>t. s = dq # CHR ''v'' # t"
  proof (cases s)
    case Nil
    with m show ?thesis by (simp add: frontend_pattern_def)
  next
    case (Cons c X)
    with m have c: "c = dq" by (auto simp: frontend_unfold split: if_splits)
    with m Cons show ?thesis
      by (cases X) (auto simp: frontend_unfold split: if_splits)
  qed
qed

lemma frontend_headed: "headed False frontend_pattern dq"
  unfolding headed_def using frontend_head2 by blast

lemma frontend_has_dq:
  "\<forall>p s. match_items False frontend_pattern p s \<noteq> None \<longrightarrow> dq \<in> set s"
  using frontend_head2 by fastforce

lemma frontend_has_dq2:
  "\<forall>p x xs. match_items False frontend_pattern p (x # xs) \<noteq> None \<longrightarrow> dq \<in> set xs"
proof (intro allI impI)
  fix p x xs
  let ?tail = "map Chr ''version'' @ [Chr dq, Chr CHR '':'', Star is_space, Chr dq, Star not_dq, Chr dq]"
  assume "match_items False frontend_pattern p (x # xs) \<noteq> None"
  then have "match_items False ?tail (Some x) xs \<noteq> None"
    unfolding frontend_unfold by (auto split: if_splits)
  then obtain p' r where "match_items False ?tail (Some x) xs = Some (p', r)" by auto
  from match_has_chr [OF this, of dq] show "dq \<in> set xs" by simp
qed

lemma frontend_nonempty:
  "\<forall>p s p' r. match_items False frontend_pattern p s = Some (p', r) \<longrightarrow> length r < length s"
proof (intro allI impI)
  fix p s p' r
  assume "match_items False frontend_pattern p s = Some (p', r)"
  from match_has_chr [OF this, of dq] show "length r < length s"
    by (simp add: frontend_pattern_def)
qed

lemma frontend_last:
  "match_items False frontend_pattern p s = Some (p', r) \<Longrightarrow> p' = Some dq"
  by (erule match_last_chr) (simp_all add: frontend_pattern_def)

lemma space_not_dq: "is_space x \<Longrightarrow> x \<noteq> dq"
  by (auto simp: is_space_def dq_def)

lemma frontend_keeps_tail:
  "keeps_match False frontend_pattern (frontend_line v)
     (map Chr ''version'' @ [Chr dq, Chr CHR '':'', Star is_space, Chr dq, Star not_dq, Chr dq])"
proof -
  note h = frontend_headed
  have r: "frontend_line v = dq # (''version'' @ [dq] @ '': '' @ [dq] @ v @ [dq])"
    by (simp add: frontend_line_def)
  have r2: "frontend_line v = dq # CHR ''v'' # (''ersion'' @ [dq] @ '': '' @ [dq] @ v @ [dq])"
    by (simp add: frontend_line_def)
  note c = keeps_match_Chr [OF h r]
  note s = keeps_match_Star [OF h r, where P = is_space, OF space_not_dq]
  have k1: "keeps_match False frontend_pattern (frontend_line v) [Chr dq, Star not_dq, Chr dq]"
    by (rule keeps_match_open [OF h frontend_has_dq frontend_has_dq2])
  have k2: "keeps_match False frontend_pattern (frontend_line v) [Star is_space, Chr dq, Star not_dq, Chr dq]"
    by (rule s [OF _ k1])
  have k3: "keeps_match False frontend_pattern (frontend_line v)
     (Chr CHR '':'' # [Star is_space, Chr dq, Star not_dq, Chr dq])"
    by (rule c [OF _ k2]) (simp add: dq_def)
  have k4: "keeps_match False frontend_pattern (frontend_line v)
     (Chr dq # Chr CHR '':'' # [Star is_space, Chr dq, Star not_dq, Chr dq])"
    by (rule keeps_match_head_Chr [OF frontend_head2 r2 _ k3]) simp
  have k5: "keeps_match False frontend_pattern (frontend_line v)
     (Chr CHR ''n'' # Chr dq # Chr CHR '':'' # [Star is_space, Chr dq, Star not_dq, Chr dq])"
    by (rule c [OF _ k4]) (simp add: dq_def)
  have k6: "keeps_match False frontend_pattern (frontend_line v)
     (Chr CHR ''o'' # Chr CHR ''n'' # Chr dq # Chr CHR '':'' # [Star is_space, Chr dq, Star not_dq, Chr dq])"
    by (rule c [OF _ k5]) (simp add: dq_def)
  have k7: "keeps_match False frontend_pattern (frontend_line v)
     (Chr CHR ''i'' # Chr CHR ''o'' # Chr CHR ''n'' # Chr dq # Chr CHR '':'' # [Star is_space, Chr dq, Star not_dq, Chr dq])"
    by (rule c [OF _ k6]) (simp add: dq_def)
  have k8: "keeps_match False frontend_pattern (frontend_line v)
     (Chr CHR ''s'' # Chr CHR ''i'' # Chr CHR ''o'' # Chr CHR ''n'' # Chr dq # Chr CHR '':'' # [Star is_space, Chr dq, Star not_dq, Chr dq])"
    by (rule c [OF _ k7]) (simp add: dq_def)
  have k9: "keeps_match False frontend_pattern (frontend_line v)
     (Chr CHR ''r'' # Chr CHR ''s'' # Chr CHR ''i'' # Chr CHR ''o'' # Chr CHR ''n'' # Chr dq # Chr CHR '':'' # [Star is_space, Chr dq, Star not_dq, Chr dq])"
    by (rule c [OF _ k8]) (simp add: dq_def)
  have k10: "keeps_match False frontend_pattern (frontend_line v)
     (Chr CHR ''e'' # Chr CHR ''r'' # Chr CHR ''s'' # Chr CHR ''i'' # Chr CHR ''o'' # Chr CHR ''n'' # Chr dq # Chr CHR '':'' # [Star is_space, Chr dq, Star not_dq, Chr dq])"
    by (rule c [OF _ k9]) (simp add: dq_def)
  have k11: "keeps_match False frontend_pattern (frontend_line v)
     (Chr CHR ''v'' # Chr CHR ''e'' # Chr CHR ''r'' # Chr CHR ''s'' # Chr CHR ''i'' # Chr CHR ''o'' # Chr CHR ''n'' # Chr dq # Chr CHR '':'' # [Star is_space, Chr dq, Star not_dq, Chr dq])"
    by (rule c [OF _ k10]) (simp add: dq_def)
  then show ?thesis by simp
qed

lemma frontend_i1:
  "\<forall>p c cs. match_items False frontend_pattern p (c # cs) = None \<longrightarrow>
     match_items False frontend_pattern p
       (c # sub_from False frontend_pattern (frontend_line v) (Some c) cs) = None"
proof (intro allI impI)
  fix p c cs
  assume n: "match_items False frontend_pattern p (c # cs) = None"
  let ?tail = "map Chr ''version'' @ [Chr dq, Chr CHR '':'', Star is_space, Chr dq, Star not_dq, Chr dq]"
  show "match_items False frontend_pattern p
       (c # sub_from False frontend_pattern (frontend_line v) (Some c) cs) = None"
  proof (cases "c = dq")
    case True
    with n have "match_items False ?tail (Some c) cs = None"
      unfolding frontend_unfold by simp
    with frontend_keeps_tail [of v]
    have "match_items False ?tail (Some c) (sub_from False frontend_pattern (frontend_line v) (Some c) cs) = None"
      unfolding keeps_match_def by blast
    with True show ?thesis unfolding frontend_unfold by simp
  next
    case False
    then show ?thesis unfolding frontend_unfold by auto
  qed
qed

lemma frontend_match_line:
  assumes "dq \<notin> set v"
  shows "match_items False frontend_pattern p (frontend_line v @ X) = Some (Some dq, X)"
proof -
  have sp: "is_space CHR '' ''" "\<not> is_space dq"
    by (simp_all add: is_space_def dq_def)
  have "match_items False [Star not_dq, Chr dq] (Some dq) (v @ dq # X) = Some (Some dq, X)"
    by (rule star_not_dq_app [OF assms(1)])
  then show ?thesis
    using sp by (simp add: frontend_pattern_def frontend_line_def)
qed

lemma frontend_i2:
  assumes "dq \<notin> set v"
  shows "\<forall>p s p' r X. match_items False frontend_pattern p s = Some (p', r) \<longrightarrow>
     sub_from False frontend_pattern (frontend_line v) p (frontend_line v @ X) =
       frontend_line v @ sub_from False frontend_pattern (frontend_line v) p' X"
proof (intro allI impI)
  fix p s p' r X
  assume m: "match_items False frontend_pattern p s = Some (p', r)"
  then have p': "p' = Some dq" by (rule frontend_last)
  have e: "frontend_line v @ X = dq # (''version'' @ [dq] @ '': '' @ [dq] @ v @ [dq] @ X)"
    by (simp add: frontend_line_def)
  have "match_items False frontend_pattern p (dq # (''version'' @ [dq] @ '': '' @ [dq] @ v @ [dq] @ X))
      = Some (Some dq, X)"
    using frontend_match_line [OF assms, of p X] unfolding e .
  then have "sub_from False frontend_pattern (frontend_line v) p
       (dq # (''version'' @ [dq] @ '': '' @ [dq] @ v @ [dq] @ X))
     = frontend_line v @ sub_from False frontend_pattern (frontend_line v) (Some dq) X"
    by (subst sub_from.simps(2)) simp
  then show "sub_from False frontend_pattern (frontend_line v) p (frontend_line v @ X) =
       frontend_line v @ sub_from False frontend_pattern (frontend_line v) p' X"
    unfolding e p' .
qed

lemma frontend_sub_idem:
  assumes "dq \<notin> set v"
  shows "sub_from False frontend_pattern (frontend_line v) p
           (sub_from False frontend_pattern (frontend_line v) p s)
         = sub_from False frontend_pattern (frontend_line v) p s"
  by (rule sub_from_idem [OF frontend_headed frontend_i1 frontend_i2 [OF assms] frontend_nonempty])

lemma sub_from_pass_list:
  assumes h: "headed ml pat c0"
  shows "c0 \<notin> set l \<Longrightarrow> l \<noteq> [] \<Longrightarrow>
     sub_from ml pat repl p (l @ X) = l @ sub_from ml pat repl (Some (last l)) X"
proof (induction l arbitrary: p)
  case Nil
  then show ?case by simp
next
  case (Cons a l)
  then have a: "a \<noteq> c0" by auto
  have s: "sub_from ml pat repl p (a # (l @ X)) = a # sub_from ml pat repl (Some a) (l @ X)"
    by (rule sub_from_pass [OF h a])
  show ?case
  proof (cases "l = []")
    case True
    with s show ?thesis by (simp del: sub_from.simps)
  next
    case False
    with Cons have "sub_from ml pat repl (Some a) (l @ X) = l @ sub_from ml pat repl (Some (last l)) X"
      by auto
    with s False show ?thesis by (simp del: sub_from.simps)
  qed
qed

lemma literal_then_chr:
  "match_items ml (map Chr l @ [Chr c]) q (v @ c # X) \<noteq> None \<Longrightarrow>
     c \<notin> set v \<Longrightarrow> c \<notin> set l \<Longrightarrow> v = l"
proof (induction l arbitrary: v q)
  case Nil
  then show ?case by (cases v) (auto split: if_splits)
next
  case (Cons a l)
  show ?case
  proof (cases v)
    case Nil
    with Cons.prems show ?thesis by (auto split: if_splits)
  next
    case (Cons y v')
    with Cons.prems have ya: "y = a"
      and m: "match_items ml (map Chr l @ [Chr c]) (Some y) (v' @ c # X) \<noteq> None"
      by (auto split: if_splits)
    from Cons.IH [OF m] Cons.prems Cons have "v' = l" by auto
    with ya Cons show ?thesis by simp
  qed
qed

lemma ts_unfold:
  "match_items False ts_pattern p (c # X) =
     (if c = CHR ''r''
      then match_items False (map Chr ''eturn '' @ Chr sq # map Chr ''1.0.0'' @ [Chr sq]) (Some c) X
      else None)"
  by (simp add: ts_pattern_def)

lemma ts_head2:
  "\<forall>p s. match_items False ts_pattern p s \<noteq> None \<longrightarrow> (\<exists>t. s = CHR ''r'' # CHR ''e'' # t)"
proof (intro allI impI)
  fix p s
  assume m: "match_items False ts_pattern p s \<noteq> None"
  show "\<exists>t. s = CHR ''r'' # CHR ''e'' # t"
  proof (cases s)
    case Nil
    with m show ?thesis by (simp add: ts_pattern_def)
  next
    case (Cons c X)
    with m have c: "c = CHR ''r''" by (auto simp: ts_unfold split: if_splits)
    with m Cons show ?thesis
      by (cases X) (auto simp: ts_unfold split: if_splits)
  qed
qed

lemma ts_headed: "headed False ts_pattern CHR ''r''"
  unfolding headed_def using ts_head2 by blast

lemma ts_nonempty:
  "\<forall>p s p' r. match_items False ts_pattern p s = Some (p', r) \<longrightarrow> length r < length s"
proof (intro allI impI)
  fix p s p' r
  assume "match_items False ts_pattern p s = Some (p', r)"
  from match_has_chr [OF this, of sq] show "length r < length s"
    by (simp add: ts_pattern_def)
qed

lemma ts_last:
  "match_items False ts_pattern p s = Some (p', r) \<Longrightarrow> p' = Some sq"
  by (erule match_last_chr) (simp_all add: ts_pattern_def)

lemma ts_keeps_tail:
  "keeps_match False ts_pattern (ts_line v)
     (map Chr ''eturn '' @ Chr sq # map Chr ''1.0.0'' @ [Chr sq])"
proof -
  note h = ts_headed
  have r: "ts_line v = CHR ''r'' # (''eturn '' @ [sq] @ v @ [sq])"
    by (simp add: ts_line_def)
  have r2: "ts_line v = CHR ''r'' # CHR ''e'' # (''turn '' @ [sq] @ v @ [sq])"
    by (simp add: ts_line_def)
  note c = keeps_match_Chr [OF h r]
  have k0: "keeps_match False ts_pattern (ts_line v) []" by (rule keeps_match_Nil)
  have k1: "keeps_match False ts_pattern (ts_line v) [Chr sq]"
    by (rule c [OF _ k0]) (simp add: sq_def)
  have k2: "keeps_match False ts_pattern (ts_line v) [Chr CHR ''0'', Chr sq]"
    by (rule c [OF _ k1]) simp
  have k3: "keeps_match False ts_pattern (ts_line v) [Chr CHR ''.'', Chr CHR ''0'', Chr sq]"
    by (rule c [OF _ k2]) simp
  have k4: "keeps_match False ts_pattern (ts_line v) [Chr CHR ''0'', Chr CHR ''.'', Chr CHR ''0'', Chr sq]"
    by (rule c [OF _ k3]) simp
  have k5: "keeps_match False ts_pattern (ts_line v)
     [Chr CHR ''.'', Chr CHR ''0'', Chr CHR ''.'', Chr CHR ''0'', Chr sq]"
    by (rule c [OF _ k4]) simp
  have k6: "keeps_match False ts_pattern (ts_line v)
     [Chr CHR ''1'', Chr CHR ''.'', Chr CHR ''0'', Chr CHR ''.'', Chr CHR ''0'', Chr sq]"
    by (rule c [OF _ k5]) simp
  have k7: "keeps_match False ts_pattern (ts_line v)
     [Chr sq, Chr CHR ''1'', Chr CHR ''.'', Chr CHR ''0'', Chr CHR ''.'', Chr CHR ''0'', Chr sq]"
    by (rule c [OF _ k6]) (simp add: sq_def)
  have k8: "keeps_match False ts_pattern (ts_line v)
     [Chr CHR '' '', Chr sq, Chr CHR ''1'', Chr CHR ''.'', Chr CHR ''0'', Chr CHR ''.'', Chr CHR ''0'', Chr sq]"
    by (rule c [OF _ k7]) simp
  have k9: "keeps_match False ts_pattern (ts_line v)
     (Chr CHR ''n'' # [Chr CHR '' '', Chr sq, Chr CHR ''1'', Chr CHR ''.'', Chr CHR ''0'', Chr CHR ''.'', Chr CHR ''0'', Chr sq])"
    by (rule c [OF _ k8]) simp
  have k10: "keeps_match False ts_pattern (ts_line v)
     (Chr CHR ''r'' # Chr CHR ''n'' # [Chr CHR '' '', Chr sq, Chr CHR ''1'', Chr CHR ''.'', Chr CHR ''0'', Chr CHR ''.'', Chr CHR ''0'', Chr sq])"
    by (rule keeps_match_head_Chr [OF ts_head2 r2 _ k9]) simp
  have k11: "keeps_match False ts_pattern (ts_line v)
     (Chr CHR ''u'' # Chr CHR ''r'' # Chr CHR ''n'' # [Chr CHR '' '', Chr sq, Chr CHR ''1'', Chr CHR ''.'', Chr CHR ''0'', Chr CHR ''.'', Chr CHR ''0'', Chr sq])"
    by (rule c [OF _ k10]) simp
  have k12: "keeps_match False ts_pattern (ts_line v)
     (Chr CHR ''t'' # Chr CHR ''u'' # Chr CHR ''r'' # Chr CHR ''n'' # [Chr CHR '' '', Chr sq, Chr CHR ''1'', Chr CHR ''.'', Chr CHR ''0'', Chr CHR ''.'', Chr CHR ''0'', Chr sq])"
    by (rule c [OF _ k11]) simp
  have k13: "keeps_match False ts_pattern (ts_line v)
     (Chr CHR ''e'' # Chr CHR ''t'' # Chr CHR ''u'' # Chr CHR ''r'' # Chr CHR ''n'' # [Chr CHR '' '', Chr sq, Chr CHR ''1'', Chr CHR ''.'', Chr CHR ''0'', Chr CHR ''.'', Chr CHR ''0'', Chr sq])"
    by (rule c [OF _ k12]) simp
  then show ?thesis by simp
qed

lemma ts_i1:
  "\<forall>p c cs. match_items False ts_pattern p (c # cs) = None \<longrightarrow>
     match_items False ts_pattern p
       (c # sub_from False ts_pattern (ts_line v) (Some c) cs) = None"
proof (intro allI impI)
  fix p c cs
  assume n: "match_items False ts_pattern p (c # cs) = None"
  let ?tail = "map Chr ''eturn '' @ Chr sq # map Chr ''1.0.0'' @ [Chr sq]"
  show "match_items False ts_pattern p
       (c # sub_from False ts_pattern (ts_line v) (Some c) cs) = None"
  proof (cases "c = CHR ''r''")
    case True
    with n have "match_items False ?tail (Some c) cs = None"
      unfolding ts_unfold by simp
    with ts_keeps_tail [of v]
    have "match_items False ?tail (Some c) (sub_from False ts_pattern (ts_line v) (Some c) cs) = None"
      unfolding keeps_match_def by blast
    with True show ?thesis unfolding ts_unfold by simp
  next
    case False
    then show ?thesis unfolding ts_unfold by auto
  qed
qed

lemma ts_line_no_match:
  assumes v: "v \<noteq> ''1.0.0''" and q: "sq \<notin> set v"
  shows "match_items False ts_pattern p (ts_line v @ X) = None"
proof (rule ccontr)
  assume "match_items False ts_pattern p (ts_line v @ X) \<noteq> None"
  then have "match_items False (map Chr ''1.0.0'' @ [Chr sq]) (Some sq) (v @ sq # X) \<noteq> None"
    by (simp add: ts_pattern_def ts_line_def)
  from literal_then_chr [OF this q] have "v = ''1.0.0''" by (simp add: sq_def)
  with v show False by simp
qed

lemma ts_i2:
  assumes q: "sq \<notin> set v" and r: "CHR ''r'' \<notin> set v"
  shows "\<forall>p s p' r X. match_items False ts_pattern p s = Some (p', r) \<longrightarrow>
     sub_from False ts_pattern (ts_line v) p (ts_line v @ X) =
       ts_line v @ sub_from False ts_pattern (ts_line v) p' X"
proof (intro allI impI)
  fix p s p' r' X
  assume m: "match_items False ts_pattern p s = Some (p', r')"
  then have p': "p' = Some sq" by (rule ts_last)
  let ?S = "sub_from False ts_pattern (ts_line v)"
  show "?S p (ts_line v @ X) = ts_line v @ ?S p' X"
  proof (cases "v = ''1.0.0''")
    case True
    have e: "ts_line v @ X = CHR ''r'' # (''eturn '' @ [sq] @ ''1.0.0'' @ [sq] @ X)"
      by (simp add: ts_line_def True)
    have "match_items False ts_pattern p (CHR ''r'' # (''eturn '' @ [sq] @ ''1.0.0'' @ [sq] @ X))
        = Some (Some sq, X)"
      by (simp add: ts_pattern_def)
    then have "?S p (CHR ''r'' # (''eturn '' @ [sq] @ ''1.0.0'' @ [sq] @ X)) = ts_line v @ ?S (Some sq) X"
      by (subst sub_from.simps(2)) simp
    then show ?thesis unfolding e p' .
  next
    case False
    note h = ts_headed
    let ?B = "''n '' @ [sq] @ v @ [sq]"
    have e: "ts_line v @ X = CHR ''r'' # (''etu'' @ (CHR ''r'' # (?B @ X)))"
      by (simp add: ts_line_def)
    have n1: "match_items False ts_pattern p (CHR ''r'' # (''etu'' @ (CHR ''r'' # (?B @ X)))) = None"
      using ts_line_no_match [OF False q, of p X] unfolding e .
    have s1: "?S p (CHR ''r'' # (''etu'' @ (CHR ''r'' # (?B @ X))))
        = CHR ''r'' # ?S (Some CHR ''r'') (''etu'' @ (CHR ''r'' # (?B @ X)))"
      by (rule sub_from_no_match [OF n1])
    have s2: "?S (Some CHR ''r'') (''etu'' @ (CHR ''r'' # (?B @ X)))
        = ''etu'' @ ?S (Some (last ''etu'')) (CHR ''r'' # (?B @ X))"
      by (rule sub_from_pass_list [OF h]) simp_all
    have n3: "match_items False ts_pattern (Some (last ''etu'')) (CHR ''r'' # (?B @ X)) = None"
    proof (rule ccontr)
      assume "match_items False ts_pattern (Some (last ''etu'')) (CHR ''r'' # (?B @ X)) \<noteq> None"
      with ts_head2 obtain t where "CHR ''r'' # (?B @ X) = CHR ''r'' # CHR ''e'' # t" by blast
      then show False by simp
    qed
    have s3: "?S (Some (last ''etu'')) (CHR ''r'' # (?B @ X))
        = CHR ''r'' # ?S (Some CHR ''r'') (?B @ X)"
      by (rule sub_from_no_match [OF n3])
    have nb: "CHR ''r'' \<notin> set ?B" using r by (simp add: sq_def)
    have s4: "?S (Some CHR ''r'') (?B @ X) = ?B @ ?S (Some (last ?B)) X"
      by (rule sub_from_pass_list [OF h nb]) simp
    have l: "last ?B = sq" by simp
    have "?S p (ts_line v @ X) = CHR ''r'' # ''etu'' @ CHR ''r'' # ?B @ ?S (Some sq) X"
      unfolding e s1 s2 s3 s4 l by simp
    also have "\<dots> = ts_line v @ ?S (Some sq) X" by (simp add: ts_line_def)
    finally show ?thesis unfolding p' .
  qed
qed

lemma ts_sub_idem:
  assumes "sq \<notin> set v" "CHR ''r'' \<notin> set v"
  shows "sub_from False ts_pattern (ts_line v) p (sub_from False ts_pattern (ts_line v) p s)
         = sub_from False ts_pattern (ts_line v) p s"
  by (rule sub_from_idem [OF ts_headed ts_i1 ts_i2 [OF assms] ts_nonempty])

section \<open>Propagating twice\<close>

lemma rewrite_at_idem:
  assumes "\<And>c. re_sub ml pat repl (re_sub ml pat repl c) = re_sub ml pat repl c"
  shows "rewrite_at ml pat repl ur uw p (rewrite_at ml pat repl ur uw p fs)
         = rewrite_at ml pat repl ur uw p fs"
  by (auto simp: rewrite_at_def assms split: option.splits)

lemma rewrite_at_commute:
  "p \<noteq> q \<Longrightarrow>
     rewrite_at ml pat repl ur uw p (rewrite_at ml pat repl ur uw q fs)
     = rewrite_at ml pat repl ur uw q (rewrite_at ml pat repl ur uw p fs)"
  by (auto simp: rewrite_at_def fun_upd_twist split: option.splits)

lemma update_backend_version_files:
  "files (snd (update_backend_version m w)) =
     rewrite_at True backend_pattern (backend_line (version m)) (unreadable w) (unwritable w)
       (project_root m @ [''backend'', ''Cargo.toml'']) (files w)"
  "unreadable (snd (update_backend_version m w)) = unreadable w"
  "unwritable (snd (update_backend_version m w)) = unwritable w"
  by (auto simp: update_backend_version_cases rewrite_at_def backend_line_def Let_def say_def
      split: option.splits)

lemma update_frontend_version_files:
  "files (snd (update_frontend_version m w)) =
     rewrite_at False frontend_pattern (frontend_line (version m)) (unreadable w) (unwritable w)
       (project_root m @ [''frontend'', ''package.json'']) (files w)"
  "unreadable (snd (update_frontend_version m w)) = unreadable w"
  "unwritable (snd (update_frontend_version m w)) = unwritable w"
  by (auto simp: update_frontend_version_cases rewrite_at_def frontend_line_def Let_def say_def
      split: option.splits)

lemma ts_pass_files:
  "files (snd (ts_pass m f updated w)) =
     rewrite_at False ts_pattern (ts_line (version m)) (unreadable w) (unwritable w)
       (project_root m @ f) (files w)"
  "unreadable (snd (ts_pass m f updated w)) = unreadable w"
  "unwritable (snd (ts_pass m f updated w)) = unwritable w"
  by (auto simp: ts_pass_cases rewrite_at_def ts_line_def Let_def say_def
      split: option.splits)

lemma ts_loop_files:
  "files (snd (ts_loop m fs updated w)) =
     fold (\<lambda>f. rewrite_at False ts_pattern (ts_line (version m)) (unreadable w) (unwritable w)
                  (project_root m @ f)) fs (files w)
   \<and> unreadable (snd (ts_loop m fs updated w)) = unreadable w
   \<and> unwritable (snd (ts_loop m fs updated w)) = unwritable w"
proof (induction fs arbitrary: updated w)
  case Nil
  then show ?case by simp
next
  case (Cons f fs)
  obtain b w1 where 1: "ts_pass m f updated w = (Inr b, w1)"
    using ts_pass_step by blast
  from ts_pass_files [of m f updated w] 1
  have 2: "files w1 = rewrite_at False ts_pattern (ts_line (version m)) (unreadable w) (unwritable w)
       (project_root m @ f) (files w)" "unreadable w1 = unreadable w" "unwritable w1 = unwritable w"
    by simp_all
  from Cons.IH [of b w1] 1 2 show ?case by (simp add: and_then_def)
qed

lemma re_sub_twice:
  assumes "parse_version v \<noteq> None"
  shows "re_sub True backend_pattern (backend_line v) (re_sub True backend_pattern (backend_line v) c)
           = re_sub True backend_pattern (backend_line v) c"
    and "re_sub False frontend_pattern (frontend_line v) (re_sub False frontend_pattern (frontend_line v) c)
           = re_sub False frontend_pattern (frontend_line v) c"
    and "re_sub False ts_pattern (ts_line v) (re_sub False ts_pattern (ts_line v) c)
           = re_sub False ts_pattern (ts_line v) c"
  unfolding re_sub_def
  using backend_sub_idem [OF version_no_quote(1) [OF assms]]
    frontend_sub_idem [OF version_no_quote(1) [OF assms]]
    ts_sub_idem [OF version_no_quote(2,3) [OF assms]]
  by blast+

text \<open>
  C7: with a valid current version, running a propagation step a second time, in the
  world the first run left, gives the same files as the first run alone: this holds for the
  backend step, the frontend step, one pass over a TypeScript file and the TypeScript
  step. Underneath, substituting the replacement line of a target in an already
  substituted text changes nothing.
\<close>

theorem propagate_twice_same_files:
  assumes "parse_version (version m) \<noteq> None"
  shows "files (snd (update_backend_version m (snd (update_backend_version m w))))
           = files (snd (update_backend_version m w))
       \<and> files (snd (update_frontend_version m (snd (update_frontend_version m w))))
           = files (snd (update_frontend_version m w))
       \<and> files (snd (ts_pass m f updated' (snd (ts_pass m f updated w))))
           = files (snd (ts_pass m f updated w))
       \<and> files (snd (update_typescript_version m (snd (update_typescript_version m w))))
           = files (snd (update_typescript_version m w))
       \<and> re_sub True backend_pattern (''version = '' @ [dq] @ version m @ [dq])
            (re_sub True backend_pattern (''version = '' @ [dq] @ version m @ [dq]) content)
           = re_sub True backend_pattern (''version = '' @ [dq] @ version m @ [dq]) content
       \<and> re_sub False frontend_pattern ([dq] @ ''version'' @ [dq] @ '': '' @ [dq] @ version m @ [dq])
            (re_sub False frontend_pattern ([dq] @ ''version'' @ [dq] @ '': '' @ [dq] @ version m @ [dq]) content)
           = re_sub False frontend_pattern ([dq] @ ''version'' @ [dq] @ '': '' @ [dq] @ version m @ [dq]) content
       \<and> re_sub False ts_pattern (''return '' @ [sq] @ version m @ [sq])
            (re_sub False ts_pattern (''return '' @ [sq] @ version m @ [sq]) content)
           = re_sub False ts_pattern (''return '' @ [sq] @ version m @ [sq]) content"
proof -
  note t = re_sub_twice [OF assms]
  have b: "files (snd (update_backend_version m (snd (update_backend_version m w))))
           = files (snd (update_backend_version m w))"
    unfolding update_backend_version_files
    by (rule rewrite_at_idem) (rule t(1))
  have f: "files (snd (update_frontend_version m (snd (update_frontend_version m w))))
           = files (snd (update_frontend_version m w))"
    unfolding update_frontend_version_files
    by (rule rewrite_at_idem) (rule t(2))
  have p: "files (snd (ts_pass m f updated' (snd (ts_pass m f updated w))))
           = files (snd (ts_pass m f updated w))"
    unfolding ts_pass_files
    by (rule rewrite_at_idem) (rule t(3))
  let ?R = "\<lambda>g. rewrite_at False ts_pattern (ts_line (version m)) (unreadable w) (unwritable w)
                  (project_root m @ g)"
  let ?a = "[''frontend'', ''src'', ''services'', ''AutoUpdater.ts'']"
  let ?b = "[''frontend'', ''src'', ''services'', ''BackendService.ts'']"
  have i: "?R g (?R g fs) = ?R g fs" for g fs
    by (rule rewrite_at_idem) (rule t(3))
  have c: "?R ?a (?R ?b fs) = ?R ?b (?R ?a fs)" for fs
    by (rule rewrite_at_commute) simp
  have q: "?R ?b (?R ?a (?R ?b (?R ?a (files w)))) = ?R ?b (?R ?a (files w))"
  proof -
    have "?R ?b (?R ?a (?R ?b (?R ?a (files w)))) = ?R ?b (?R ?b (?R ?a (?R ?a (files w))))"
      by (simp only: c)
    also have "\<dots> = ?R ?b (?R ?a (files w))" by (simp only: i)
    finally show ?thesis .
  qed
  let ?w1 = "snd (ts_loop m ts_files False w)"
  have l1: "files ?w1 = ?R ?b (?R ?a (files w))" "unreadable ?w1 = unreadable w"
    "unwritable ?w1 = unwritable w"
    using ts_loop_files [of m ts_files False w]
    by (simp_all add: ts_files_def del: ts_loop.simps)
  have l2: "files (snd (ts_loop m ts_files False ?w1)) = ?R ?b (?R ?a (files ?w1))"
    using ts_loop_files [of m ts_files False ?w1] l1(2,3)
    by (simp add: ts_files_def del: ts_loop.simps)
  have u: "files (snd (update_typescript_version m (snd (update_typescript_version m w))))
           = files (snd (update_typescript_version m w))"
    unfolding update_typescript_version_def l2 l1(1) by (rule q)
  from b f p u t show ?thesis
    by (simp add: backend_line_def frontend_line_def ts_line_def)
qed

theorem propagate_twice_same_files_witness:
  "parse_version ''2.1.0'' \<noteq> None
   \<and> files (snd (update_backend_version \<lparr>project_root = [], version_file = [''VERSION''], version = ''2.1.0''\<rparr>
        (snd (update_backend_version \<lparr>project_root = [], version_file = [''VERSION''], version = ''2.1.0''\<rparr>
           \<lparr>files = [[''backend'', ''Cargo.toml''] \<mapsto> ''version = '' @ [dq] @ ''2.0.9'' @ [dq]],
             unreadable = {}, unwritable = {}, out = []\<rparr>))))
      = [[''backend'', ''Cargo.toml''] \<mapsto> ''version = '' @ [dq] @ ''2.1.0'' @ [dq]]"
proof -
  let ?m = "\<lparr>project_root = [], version_file = [''VERSION''], version = ''2.1.0''\<rparr>"
  let ?u = "\<lparr>files = [[''backend'', ''Cargo.toml''] \<mapsto> ''version = '' @ [dq] @ ''2.0.9'' @ [dq]],
             unreadable = {}, unwritable = {}, out = []\<rparr>"
  have v: "parse_version (version ?m) \<noteq> None"
    by (simp add: parse_version_def all_digits_def is_digit_def)
  have s: "re_search True backend_pattern (''version = '' @ [dq] @ ''2.0.9'' @ [dq])"
    by (simp add: re_search_def backend_pattern_def is_space_def not_dq_def dq_def nl_def)
  have r: "re_sub True backend_pattern (''version = '' @ [dq] @ ''2.1.0'' @ [dq]) (''version = '' @ [dq] @ ''2.0.9'' @ [dq])
     = ''version = '' @ [dq] @ ''2.1.0'' @ [dq]"
    by (simp add: re_sub_def backend_pattern_def is_space_def not_dq_def dq_def nl_def)
  have "files (snd (update_backend_version ?m ?u))
      = [[''backend'', ''Cargo.toml''] \<mapsto> ''version = '' @ [dq] @ ''2.1.0'' @ [dq]]"
    using s r by (simp add: update_backend_version_cases say_def)
  with propagate_twice_same_files [OF v, of ?u] v show ?thesis by simp
qed

end
